theory Spec2Isabelle
  imports Complex_Main "HOL-Library.Multiset"
begin

section \<open>Block cache simulator (tools/block_cache_analyzer/block_cache_pysim.py)\<close>

text \<open>
  The simulator is Python 2 code (\<^verbatim>\<open>sorted(..., cmp=...)\<close>, \<^verbatim>\<open>__cmp__\<close>): \<^verbatim>\<open>/\<close> between
  integers is floor division, which is \<open>div\<close> on \<open>int\<close>. Exceptions are values of
  \<open>py_error\<close>; a function that can raise returns \<open>py_error + 'a\<close>. \<open>NonTermination\<close>
  is not an exception: it is the outcome of a call whose loop never exits.
\<close>

datatype py_error =
  AssertionError | KeyError | IndexError | ZeroDivisionError | ValueError | OverflowError
  | NonTermination

definition kSampleSize :: nat where
  "kSampleSize = 64"

definition kMicrosInSecond :: int where
  "kMicrosInSecond = 1000000"

definition kSecondsInMinute :: int where
  "kSecondsInMinute = 60"

definition kSecondsInHour :: int where
  "kSecondsInHour = 3600"

subsection \<open>TraceRecord and CacheEntry\<close>

record TraceRecord =
  access_time :: int
  block_id :: int
  block_type :: int
  block_size :: int
  cf_id :: int
  cf_name :: string
  level :: int
  fd :: int
  caller :: int
  no_insert :: bool
  get_id :: int
  key_id :: int
  kv_size :: int
  is_hit :: bool
  next_access_seq_no :: int

record CacheEntry =
  value_size :: int
  last_access_number :: int
  num_hits :: int
  ce_cf_id :: int
  ce_level :: int
  ce_block_type :: int
  last_access_time :: int
  insertion_time :: int

text \<open>
  \<^verbatim>\<open>CacheEntry.__init__(value_size, cf_id, level, block_type, access_number, time_s, num_hits=0)\<close>:
  both time fields are set from \<open>time_s\<close>, and \<open>cf_id\<close> is stored as 0.
\<close>

definition CacheEntry_init :: "int \<Rightarrow> int \<Rightarrow> int \<Rightarrow> int \<Rightarrow> int \<Rightarrow> int \<Rightarrow> int \<Rightarrow> CacheEntry" where
  "CacheEntry_init vsize cf lvl btype access_number time_s nhits =
     \<lparr> value_size = vsize, last_access_number = access_number, num_hits = nhits,
       ce_cf_id = 0, ce_level = lvl, ce_block_type = btype,
       last_access_time = time_s, insertion_time = time_s \<rparr>"

subsection \<open>MissRatioStats\<close>

record MissRatioStats =
  num_misses :: int
  num_accesses :: int
  time_unit :: int
  time_misses :: "int \<rightharpoonup> int"
  time_accesses :: "int \<rightharpoonup> int"

definition MissRatioStats_init :: "int \<Rightarrow> MissRatioStats" where
  "MissRatioStats_init tu =
     \<lparr> num_misses = 0, num_accesses = 0, time_unit = tu,
       time_misses = Map.empty, time_accesses = Map.empty \<rparr>"

text \<open>\<^verbatim>\<open>d[k] = d.get(k, 0) + 1\<close>, as the two-step "if k not in d: d[k] = 0; d[k] += 1".\<close>

definition dict_incr :: "('k \<rightharpoonup> int) \<Rightarrow> 'k \<Rightarrow> ('k \<rightharpoonup> int)" where
  "dict_incr d k = d(k \<mapsto> (case d k of None \<Rightarrow> 0 | Some n \<Rightarrow> n) + 1)"

definition update_metrics :: "MissRatioStats \<Rightarrow> int \<Rightarrow> bool \<Rightarrow> MissRatioStats" where
  "update_metrics s atime hit =
     (let t = atime div (kMicrosInSecond * time_unit s);
          s1 = s\<lparr> num_accesses := num_accesses s + 1,
                  time_accesses := dict_incr (time_accesses s) t \<rparr>
      in if \<not> hit
         then s1\<lparr> num_misses := num_misses s1 + 1,
                  time_misses := dict_incr (time_misses s1) t \<rparr>
         else s1)"

definition reset_counter :: "MissRatioStats \<Rightarrow> MissRatioStats" where
  "reset_counter s = s\<lparr> num_misses := 0, num_accesses := 0 \<rparr>"

text \<open>
  \<^verbatim>\<open>float(num_misses) * 100.0 / float(num_accesses)\<close>. The quotient is modelled as an
  exact rational (the rounding of the double is not modelled); dividing by a zero float
  raises \<^verbatim>\<open>ZeroDivisionError\<close>.
\<close>

definition miss_ratio :: "MissRatioStats \<Rightarrow> py_error + rat" where
  "miss_ratio s =
     (if num_accesses s = 0 then Inl ZeroDivisionError
      else Inr (of_int (num_misses s) * 100 / of_int (num_accesses s)))"

text \<open>
  The first statement of \<^verbatim>\<open>report_stats\<close> formats the row of the \<^verbatim>\<open>data-ml-mrc\<close> file from
  \<^verbatim>\<open>cache.miss_ratio_stats.miss_ratio()\<close> and \<^verbatim>\<open>num_accesses\<close>, with no guard; the timeline
  writers that follow never call \<^verbatim>\<open>miss_ratio()\<close>. The model returns the two numbers of
  the row.
\<close>

definition report_stats_mrc :: "MissRatioStats \<Rightarrow> py_error + (rat \<times> int)" where
  "report_stats_mrc s =
     (case miss_ratio s of
        Inl e \<Rightarrow> Inl e
      | Inr r \<Rightarrow> Inr (r, num_accesses s))"

subsection \<open>HashEntry and HashTable\<close>

text \<open>
  \<^verbatim>\<open>HashEntry(key, hash, value)\<close>. A bucket of the table is \<^verbatim>\<open>None\<close> or a list of slots, and
  a slot is \<^verbatim>\<open>None\<close> (free) or a hash entry.
\<close>

record 'v HashEntry =
  hkey :: string
  hhash :: int
  hvalue :: 'v

type_synonym 'v bucket = "'v HashEntry option list"

record 'v HashTable =
  initial_size :: nat
  table :: "'v bucket option list"
  elements :: int

definition HashTable_init :: "'v HashTable" where
  "HashTable_init = \<lparr> initial_size = 32, table = replicate 32 None, elements = 0 \<rparr>"

text \<open>
  \<^verbatim>\<open>hash % len(self.table)\<close>: Python's remainder has the sign of the divisor, as \<open>mod\<close> on
  \<open>int\<close> has. The table is never empty (32 buckets at construction and resize refuses
  a size below that; see \<open>ht_wf\<close>), so the division is defined and the index in range.
\<close>

definition bucket_index :: "nat \<Rightarrow> int \<Rightarrow> nat" where
  "bucket_index n h = nat (h mod int n)"

definition slots_of :: "'v bucket option \<Rightarrow> 'v bucket" where
  "slots_of b = (case b of None \<Rightarrow> [] | Some ss \<Rightarrow> ss)"

text \<open>The loop of \<^verbatim>\<open>lookup\<close> over one bucket: the first live slot with this hash and key.\<close>

fun lookup_slots :: "string \<Rightarrow> int \<Rightarrow> 'v bucket \<Rightarrow> 'v option" where
  "lookup_slots k h [] = None"
| "lookup_slots k h (None # ss) = lookup_slots k h ss"
| "lookup_slots k h (Some e # ss) =
     (if hhash e = h \<and> hkey e = k then Some (hvalue e) else lookup_slots k h ss)"

definition HashTable_lookup :: "'v HashTable \<Rightarrow> string \<Rightarrow> int \<Rightarrow> 'v option" where
  "HashTable_lookup t k h =
     (case table t ! bucket_index (length (table t)) h of
        None \<Rightarrow> None
      | Some ss \<Rightarrow> lookup_slots k h ss)"

text \<open>
  \<^verbatim>\<open>resize\<close>: the live entries are copied bucket by bucket, slot by slot, each appended
  to the bucket of its hash in the new table.
\<close>

fun live_slots :: "'v bucket \<Rightarrow> 'v HashEntry list" where
  "live_slots [] = []"
| "live_slots (None # ss) = live_slots ss"
| "live_slots (Some e # ss) = e # live_slots ss"

definition live_entries :: "'v bucket option list \<Rightarrow> 'v HashEntry list" where
  "live_entries tbl = concat (map (\<lambda>b. live_slots (slots_of b)) tbl)"

definition copy_entry :: "nat \<Rightarrow> 'v bucket option list \<Rightarrow> 'v HashEntry \<Rightarrow> 'v bucket option list" where
  "copy_entry new_size nt e =
     (let index = bucket_index new_size (hhash e)
      in nt[index := Some (slots_of (nt ! index) @ [Some e])])"

definition resize :: "'v HashTable \<Rightarrow> nat \<Rightarrow> 'v HashTable" where
  "resize t new_size =
     (if new_size = length (table t) then t
      else if new_size < initial_size t then t
      else if elements t < 100 then t
      else t\<lparr> table := foldl (copy_entry new_size) (replicate new_size None)
                                (live_entries (table t)) \<rparr>)"

text \<open>
  \<^verbatim>\<open>int(len(self.table) * 1.5)\<close> is exact in double arithmetic. \<^verbatim>\<open>int(len(self.table) * 0.7)\<close>
  is modelled by the exact \<open>\<lfloor>7 * len / 10\<rfloor>\<close>; the rounded double product can fall one
  below it when \<open>7 * len / 10\<close> is an integer. Nothing proved below depends on the new
  size: the lemmas on \<open>resize\<close> hold for every \<open>new_size\<close>.
\<close>

definition grow :: "'v HashTable \<Rightarrow> 'v HashTable" where
  "grow t =
     (if elements t < 4 * int (length (table t)) then t
      else resize t (3 * length (table t) div 2))"

definition shrink :: "'v HashTable \<Rightarrow> 'v HashTable" where
  "shrink t =
     (if elements t * 2 \<ge> int (length (table t)) then t
      else resize t (7 * length (table t) div 10))"

text \<open>The first loop of \<^verbatim>\<open>insert\<close>: replace the live entry with this hash and key.\<close>

fun replace_slot :: "'v HashEntry \<Rightarrow> 'v bucket \<Rightarrow> 'v bucket option" where
  "replace_slot e [] = None"
| "replace_slot e (None # ss) = map_option (\<lambda>r. None # r) (replace_slot e ss)"
| "replace_slot e (Some x # ss) =
     (if hhash x = hhash e \<and> hkey x = hkey e then Some (Some e # ss)
      else map_option (\<lambda>r. Some x # r) (replace_slot e ss))"

text \<open>The second loop of \<^verbatim>\<open>insert\<close>: occupy the first free slot.\<close>

fun fill_slot :: "'v HashEntry \<Rightarrow> 'v bucket \<Rightarrow> 'v bucket option" where
  "fill_slot e [] = None"
| "fill_slot e (None # ss) = Some (Some e # ss)"
| "fill_slot e (Some x # ss) = map_option (\<lambda>r. Some x # r) (fill_slot e ss)"

definition HashTable_insert :: "'v HashTable \<Rightarrow> string \<Rightarrow> int \<Rightarrow> 'v \<Rightarrow> 'v HashTable" where
  "HashTable_insert t k h v =
     (let t1 = grow t;
          index = bucket_index (length (table t1)) h;
          ss = slots_of (table t1 ! index);
          e = \<lparr> hkey = k, hhash = h, hvalue = v \<rparr>
      in case replace_slot e ss of
           Some ss' \<Rightarrow> t1\<lparr> table := (table t1)[index := Some ss'] \<rparr>
         | None \<Rightarrow>
             (let ss' = (case fill_slot e ss of Some r \<Rightarrow> r | None \<Rightarrow> ss @ [Some e])
              in t1\<lparr> table := (table t1)[index := Some ss'],
                     elements := elements t1 + 1 \<rparr>))"

text \<open>The loop of \<^verbatim>\<open>delete\<close>: free the first live slot with this hash and key.\<close>

fun delete_slot :: "string \<Rightarrow> int \<Rightarrow> 'v bucket \<Rightarrow> ('v HashEntry \<times> 'v bucket) option" where
  "delete_slot k h [] = None"
| "delete_slot k h (None # ss) = map_option (\<lambda>(d, r). (d, None # r)) (delete_slot k h ss)"
| "delete_slot k h (Some x # ss) =
     (if hhash x = h \<and> hkey x = k then Some (x, None # ss)
      else map_option (\<lambda>(d, r). (d, Some x # r)) (delete_slot k h ss))"

text \<open>\<^verbatim>\<open>delete\<close> returns the deleted entry (or \<^verbatim>\<open>None\<close>) and leaves the table updated.\<close>

definition HashTable_delete :: "'v HashTable \<Rightarrow> string \<Rightarrow> int \<Rightarrow> 'v HashEntry option \<times> 'v HashTable" where
  "HashTable_delete t k h =
     (let index = bucket_index (length (table t)) h
      in case table t ! index of
           None \<Rightarrow> (None, t)
         | Some ss \<Rightarrow>
             (case delete_slot k h ss of
                None \<Rightarrow> (None, t)
              | Some (d, ss') \<Rightarrow>
                  (Some d, shrink (t\<lparr> table := (table t)[index := Some ss'],
                                      elements := elements t - 1 \<rparr>))))"

text \<open>
  \<^verbatim>\<open>random_sample(sample_size)\<close>. \<open>index\<close> is the bucket drawn by \<^verbatim>\<open>random.randint\<close>; the
  walk visits every bucket once from there, wrapping around, and stops as soon as the
  sample is full.
\<close>

fun sample_slots :: "nat \<Rightarrow> 'v bucket \<Rightarrow> 'v HashEntry list \<Rightarrow> 'v HashEntry list" where
  "sample_slots n [] samples = samples"
| "sample_slots n (None # ss) samples = sample_slots n ss samples"
| "sample_slots n (Some e # ss) samples =
     (if length (samples @ [e]) = n then samples @ [e]
      else sample_slots n ss (samples @ [e]))"

fun sample_walk :: "nat \<Rightarrow> 'v bucket option list \<Rightarrow> 'v HashEntry list \<Rightarrow> 'v HashEntry list" where
  "sample_walk n [] samples = samples"
| "sample_walk n (b # bs) samples =
     (let samples' = (case b of None \<Rightarrow> samples | Some ss \<Rightarrow> sample_slots n ss samples)
      in if length samples' = n then samples' else sample_walk n bs samples')"

definition random_sample :: "'v HashTable \<Rightarrow> nat \<Rightarrow> nat \<Rightarrow> py_error + 'v HashEntry list" where
  "random_sample t index sample_size =
     (let samples = sample_walk sample_size (rotate index (table t)) []
      in if length samples \<le> sample_size then Inr samples else Inl AssertionError)"

text \<open>An interleaving of calls on one table, for the round-trip property.\<close>

datatype 'v ht_call = Insert string int 'v | Delete string int | Lookup string int

fun ht_apply :: "'v HashTable \<Rightarrow> 'v ht_call \<Rightarrow> 'v HashTable" where
  "ht_apply t (Insert k h v) = HashTable_insert t k h v"
| "ht_apply t (Delete k h) = snd (HashTable_delete t k h)"
| "ht_apply t (Lookup k h) = t"

definition ht_calls :: "'v ht_call list \<Rightarrow> 'v HashTable" where
  "ht_calls cs = foldl ht_apply HashTable_init cs"

subsection \<open>Python's \<^verbatim>\<open>sorted(xs, cmp=f)\<close>\<close>

text \<open>
  \<^verbatim>\<open>sorted\<close> copies the list and runs CPython's \<^verbatim>\<open>list.sort\<close> on it. Every comparison the
  sort makes is \<^verbatim>\<open>f(x, y) < 0\<close>, and an exception raised by \<open>f\<close> ends the sort and is
  raised by \<^verbatim>\<open>sorted\<close>: \<open>lt\<close> returns the truth value or the exception. On fewer than 64
  elements the sort is exactly: find the initial run (\<^verbatim>\<open>count_run\<close>: a maximal
  non-descending prefix, or a strictly descending one, which is reversed), then insert
  the remaining elements one by one by binary search (\<^verbatim>\<open>binarysort\<close>). From 64 elements
  on CPython cuts the list into such runs of at least 32 and merges them; the model
  uses the binary insertion for every length, which gives the same list whenever \<open>f\<close>
  is a consistent ordering (the stable sorted permutation is unique) and is always a
  permutation of the input.
\<close>

text \<open>
  The loops of \<^verbatim>\<open>count_run\<close>: the run goes on while \<^verbatim>\<open>*lo < *(lo-1)\<close> has the truth value
  \<open>descending\<close>.
\<close>

fun run_len :: "('a \<Rightarrow> 'a \<Rightarrow> py_error + bool) \<Rightarrow> bool \<Rightarrow> 'a \<Rightarrow> 'a list \<Rightarrow> py_error + nat" where
  "run_len lt descending prev [] = Inr 0"
| "run_len lt descending prev (x # xs) =
     (case lt x prev of
        Inl e \<Rightarrow> Inl e
      | Inr b \<Rightarrow>
          if b = descending
          then (case run_len lt descending x xs of Inl e \<Rightarrow> Inl e | Inr n \<Rightarrow> Inr (Suc n))
          else Inr 0)"

fun count_run :: "('a \<Rightarrow> 'a \<Rightarrow> py_error + bool) \<Rightarrow> 'a list \<Rightarrow> py_error + (nat \<times> bool)" where
  "count_run lt [] = Inr (0, False)"
| "count_run lt [x] = Inr (1, False)"
| "count_run lt (x0 # x1 # xs) =
     (case lt x1 x0 of
        Inl e \<Rightarrow> Inl e
      | Inr descending \<Rightarrow>
          (case run_len lt descending x1 xs of
             Inl e \<Rightarrow> Inl e
           | Inr n \<Rightarrow> Inr (2 + n, descending)))"

function bisect ::
  "('a \<Rightarrow> 'a \<Rightarrow> py_error + bool) \<Rightarrow> 'a \<Rightarrow> 'a list \<Rightarrow> nat \<Rightarrow> nat \<Rightarrow> py_error + nat" where
  "bisect lt pivot xs l r =
     (if l < r
      then (let p = l + (r - l) div 2
            in case lt pivot (xs ! p) of
                 Inl e \<Rightarrow> Inl e
               | Inr b \<Rightarrow> if b then bisect lt pivot xs l p else bisect lt pivot xs (p + 1) r)
      else Inr l)"
  by pat_completeness auto
termination
  by (relation "measure (\<lambda>(lt, pivot, xs, l, r). r - l)") auto

declare bisect.simps [simp del]

fun binarysort ::
  "('a \<Rightarrow> 'a \<Rightarrow> py_error + bool) \<Rightarrow> 'a list \<Rightarrow> 'a list \<Rightarrow> py_error + 'a list" where
  "binarysort lt pre [] = Inr pre"
| "binarysort lt pre (pivot # rest) =
     (case bisect lt pivot pre 0 (length pre) of
        Inl e \<Rightarrow> Inl e
      | Inr l \<Rightarrow> binarysort lt (take l pre @ pivot # drop l pre) rest)"

definition listsort :: "('a \<Rightarrow> 'a \<Rightarrow> py_error + bool) \<Rightarrow> 'a list \<Rightarrow> py_error + 'a list" where
  "listsort lt xs =
     (if length xs < 2 then Inr xs
      else (case count_run lt xs of
              Inl e \<Rightarrow> Inl e
            | Inr (n, descending) \<Rightarrow>
                binarysort lt (if descending then rev (take n xs) else take n xs) (drop n xs)))"

definition py_sorted :: "('a \<Rightarrow> 'a \<Rightarrow> py_error + int) \<Rightarrow> 'a list \<Rightarrow> py_error + 'a list" where
  "py_sorted cmp xs =
     listsort (\<lambda>x y. case cmp x y of Inl e \<Rightarrow> Inl e | Inr c \<Rightarrow> Inr (c < 0)) xs"

subsection \<open>Python floats\<close>

text \<open>
  A Python float is an IEEE 754 binary64 number. A finite one is modelled by the
  rational number it denotes, and every operation rounds its exact result to the
  nearest double, ties to the even significand: \<open>round_double\<close>. For \<open>x \<noteq> 0\<close> with
  \<open>2^e \<le> \<bar>x\<bar> < 2^(e+1)\<close> the doubles around \<open>x\<close> are the multiples of \<open>2^(e - 52)\<close>, and of
  \<open>2^(-1074)\<close> in the subnormal range \<open>e < - 1022\<close>. \<open>ilog2 n\<close> is the position of the
  leading bit of a positive integer; the exponent of a fraction \<open>p / q\<close> is
  \<open>ilog2 p - ilog2 q\<close> or one less.
\<close>

function ilog2 :: "int \<Rightarrow> int" where
  "ilog2 n = (if n < 2 then 0 else 1 + ilog2 (n div 2))"
  by pat_completeness auto
termination
  by (relation "measure (\<lambda>n. nat n)") auto

declare ilog2.simps [simp del]

definition pow2 :: "int \<Rightarrow> rat" where
  "pow2 e = (if 0 \<le> e then 2 ^ nat e else 1 / 2 ^ nat (- e))"

definition round_half_even :: "rat \<Rightarrow> int" where
  "round_half_even x =
     (let f = \<lfloor>x\<rfloor>; r = x - of_int f
      in if r < 1 / 2 then f else if 1 / 2 < r then f + 1
         else if even f then f else f + 1)"

definition round_double :: "rat \<Rightarrow> rat" where
  "round_double x =
     (if x = 0 then 0
      else (let a = \<bar>x\<bar>;
                (p, q) = quotient_of a;
                k = ilog2 p - ilog2 q;
                e = (if pow2 k \<le> a then k else k - 1);
                ulp = pow2 (max e (- 1022) - 52)
            in sgn x * of_int (round_half_even (a / ulp)) * ulp))"

text \<open>
  \<^verbatim>\<open>float(n)\<close> of an integer: the nearest double, and \<^verbatim>\<open>OverflowError\<close> when that would be
  \<open>2^1024\<close> or beyond, that is when its leading bit is at position 1024 or higher.
\<close>

definition py_float :: "int \<Rightarrow> py_error + rat" where
  "py_float n =
     (let x = round_double (of_int n)
      in if 1024 \<le> ilog2 \<lfloor>\<bar>x\<bar>\<rfloor> then Inl OverflowError else Inr x)"

text \<open>
  \<^verbatim>\<open>a / b\<close> and \<^verbatim>\<open>a - b\<close> on floats. Where the simulator divides, \<open>b\<close> is the double of a
  nonzero integer, so \<open>b \<noteq> 0\<close> and the quotient is not larger than \<open>a\<close>: neither
  \<^verbatim>\<open>ZeroDivisionError\<close> nor an infinity arises. A difference that rounds to \<open>2^1024\<close> or
  beyond is an infinity of that sign; the simulator only reads the sign of a
  difference.
\<close>

definition float_div :: "rat \<Rightarrow> rat \<Rightarrow> rat" where
  "float_div a b = round_double (a / b)"

definition float_sub :: "rat \<Rightarrow> rat \<Rightarrow> rat" where
  "float_sub a b = round_double (a - b)"

subsection \<open>Policies\<close>

text \<open>
  The four subclasses of \<^verbatim>\<open>Policy\<close> differ in \<^verbatim>\<open>prioritize_samples\<close> and \<^verbatim>\<open>policy_name\<close> only;
  an object is its class together with its \<^verbatim>\<open>evicted_keys\<close> dictionary.
\<close>

datatype PolicyKind = LRUPolicy | MRUPolicy | LFUPolicy | HyperbolicPolicy

record Policy =
  kind :: PolicyKind
  evicted_keys :: "string \<rightharpoonup> int"

definition Policy_init :: "PolicyKind \<Rightarrow> Policy" where
  "Policy_init c = \<lparr> kind = c, evicted_keys = Map.empty \<rparr>"

definition Policy_evict :: "Policy \<Rightarrow> string \<Rightarrow> int \<Rightarrow> Policy" where
  "Policy_evict p k max_size = p\<lparr> evicted_keys := (evicted_keys p)(k \<mapsto> 0) \<rparr>"

definition Policy_delete :: "Policy \<Rightarrow> string \<Rightarrow> Policy" where
  "Policy_delete p k = p\<lparr> evicted_keys := (evicted_keys p)(k := None) \<rparr>"

definition generate_reward :: "Policy \<Rightarrow> string \<Rightarrow> int" where
  "generate_reward p k = (if k \<in> dom (evicted_keys p) then 0 else 1)"

definition policy_name :: "PolicyKind \<Rightarrow> string" where
  "policy_name c =
     (case c of LRUPolicy \<Rightarrow> ''lru'' | MRUPolicy \<Rightarrow> ''mru''
              | LFUPolicy \<Rightarrow> ''lfu'' | HyperbolicPolicy \<Rightarrow> ''hb'')"

text \<open>
  \<^verbatim>\<open>HyperbolicPolicy.compare\<close>. \<open>duration now e\<close> is the expression bound to \<^verbatim>\<open>e1_duration\<close>
  and \<^verbatim>\<open>e2_duration\<close>, an integer. The four conversions \<^verbatim>\<open>float(...)\<close> are made in the order
  of the source, and each can raise \<^verbatim>\<open>OverflowError\<close>.
\<close>

definition duration :: "int \<Rightarrow> CacheEntry HashEntry \<Rightarrow> int" where
  "duration now e =
     max 0 ((now - insertion_time (hvalue e)) div kMicrosInSecond) * value_size (hvalue e)"

definition compare ::
  "CacheEntry HashEntry \<Rightarrow> CacheEntry HashEntry \<Rightarrow> int \<Rightarrow> py_error + int" where
  "compare e1 e2 now =
     (let e1_duration = duration now e1;
          e2_duration = duration now e2
      in if e1_duration = e2_duration then Inr (num_hits (hvalue e1) - num_hits (hvalue e2))
         else if e1_duration = 0 then Inr 1
         else if e2_duration = 0 then Inr 1
         else (case py_float (num_hits (hvalue e1)) of Inl e \<Rightarrow> Inl e | Inr h1 \<Rightarrow>
               case py_float e1_duration of Inl e \<Rightarrow> Inl e | Inr d1 \<Rightarrow>
               case py_float (num_hits (hvalue e2)) of Inl e \<Rightarrow> Inl e | Inr h2 \<Rightarrow>
               case py_float e2_duration of Inl e \<Rightarrow> Inl e | Inr d2 \<Rightarrow>
                 (let diff = float_sub (float_div h1 d1) (float_div h2 d2)
                  in Inr (if diff = 0 then 0 else if diff > 0 then 1 else - 1))))"

text \<open>
  \<^verbatim>\<open>prioritize_samples(samples, auxilliary_info)\<close>, dispatched on the class of the policy.
  Only the hyperbolic policy reads \<^verbatim>\<open>auxilliary_info\<close>, and asserts it has one element.
\<close>

definition prioritize_samples ::
  "PolicyKind \<Rightarrow> CacheEntry HashEntry list \<Rightarrow> int list \<Rightarrow> py_error + CacheEntry HashEntry list" where
  "prioritize_samples c samples auxilliary_info =
     (case c of
        LRUPolicy \<Rightarrow>
          py_sorted (\<lambda>e1 e2. Inr (last_access_number (hvalue e1) - last_access_number (hvalue e2)))
                    samples
      | MRUPolicy \<Rightarrow>
          py_sorted (\<lambda>e1 e2. Inr (last_access_number (hvalue e2) - last_access_number (hvalue e1)))
                    samples
      | LFUPolicy \<Rightarrow>
          py_sorted (\<lambda>e1 e2. Inr (num_hits (hvalue e1) - num_hits (hvalue e2))) samples
      | HyperbolicPolicy \<Rightarrow>
          (if length auxilliary_info \<noteq> 1 then Inl AssertionError
           else py_sorted (\<lambda>e1 e2. compare e1 e2 (auxilliary_info ! 0)) samples))"

subsection \<open>PolicyStats\<close>

record PolicyStats =
  time_selected_polices :: "int \<rightharpoonup> (string \<rightharpoonup> int)"
  ps_time_accesses :: "int \<rightharpoonup> int"
  policy_names :: "nat \<rightharpoonup> string"
  ps_time_unit :: int

definition PolicyStats_init :: "int \<Rightarrow> Policy list \<Rightarrow> PolicyStats" where
  "PolicyStats_init tu ps =
     \<lparr> time_selected_polices = Map.empty, ps_time_accesses = Map.empty,
       policy_names = (\<lambda>i. if i < length ps then Some (policy_name (kind (ps ! i))) else None),
       ps_time_unit = tu \<rparr>"

text \<open>\<^verbatim>\<open>self.policy_names[selected_policy]\<close> raises \<^verbatim>\<open>KeyError\<close> for an unknown index.\<close>

definition PolicyStats_update_metrics :: "PolicyStats \<Rightarrow> int \<Rightarrow> nat \<Rightarrow> py_error + PolicyStats" where
  "PolicyStats_update_metrics s atime selected_policy =
     (let t = atime div (kMicrosInSecond * ps_time_unit s);
          ta = dict_incr (ps_time_accesses s) t;
          sel = (case time_selected_polices s t of None \<Rightarrow> Map.empty | Some d \<Rightarrow> d)
      in case policy_names s selected_policy of
           None \<Rightarrow> Inl KeyError
         | Some name \<Rightarrow>
             Inr (s\<lparr> ps_time_accesses := ta,
                     time_selected_polices :=
                       (time_selected_polices s)(t \<mapsto> dict_incr sel name) \<rparr>))"

subsection \<open>Cache: the base class\<close>

text \<open>
  \<^verbatim>\<open>get_id_row_key_map[get_id]\<close> is a dictionary with the string key \<^verbatim>\<open>"h"\<close> (has the get
  been served) and one integer key per \<^verbatim>\<open>key_id\<close> seen (was its row inserted): a pair of
  the flag and the map of key ids.
\<close>

record Cache =
  cache_size :: int
  used_size :: int
  miss_ratio_stats :: MissRatioStats
  policy_stats :: PolicyStats
  per_hour_miss_ratio_stats :: MissRatioStats
  per_hour_policy_stats :: PolicyStats
  enable_cache_row_key :: bool
  get_id_row_key_map :: "int \<rightharpoonup> (bool \<times> (int \<rightharpoonup> bool))"
  policies :: "Policy list"

text \<open>
  The methods a subclass overrides (\<^verbatim>\<open>lookup\<close>, \<^verbatim>\<open>evict\<close>, \<^verbatim>\<open>insert\<close>, \<^verbatim>\<open>should_admit\<close>), as a
  table of functions on the state \<open>'c\<close> of the subclass. \<^verbatim>\<open>lookup\<close> returns hit or miss; each
  method returns the state it leaves, or the exception it raises.
\<close>

record 'c methods =
  m_lookup :: "'c \<Rightarrow> TraceRecord \<Rightarrow> string \<Rightarrow> int \<Rightarrow> py_error + (bool \<times> 'c)"
  m_evict :: "'c \<Rightarrow> TraceRecord \<Rightarrow> string \<Rightarrow> int \<Rightarrow> int \<Rightarrow> py_error + 'c"
  m_insert :: "'c \<Rightarrow> TraceRecord \<Rightarrow> string \<Rightarrow> int \<Rightarrow> int \<Rightarrow> py_error + 'c"
  m_should_admit :: "'c \<Rightarrow> TraceRecord \<Rightarrow> string \<Rightarrow> int \<Rightarrow> int \<Rightarrow> bool"

text \<open>\<^verbatim>\<open>"{}".format(n)\<close> of an integer: its decimal digits, with a minus sign when negative.\<close>

function str_nat :: "nat \<Rightarrow> string" where
  "str_nat n = (if n < 10 then [''0123456789'' ! n]
                else str_nat (n div 10) @ [''0123456789'' ! (n mod 10)])"
  by pat_completeness auto
termination
  by (relation "measure id") auto

declare str_nat.simps [simp del]

definition str_int :: "int \<Rightarrow> string" where
  "str_int i = (if i < 0 then ''-'' @ str_nat (nat (- i)) else str_nat (nat i))"

definition block_key :: "TraceRecord \<Rightarrow> string" where
  "block_key r = ''b'' @ str_int (block_id r)"

definition row_key :: "TraceRecord \<Rightarrow> string" where
  "row_key r = ''g'' @ str_int (key_id r)"

definition update_stats :: "'a Cache_scheme \<Rightarrow> int \<Rightarrow> bool \<Rightarrow> 'a Cache_scheme" where
  "update_stats c atime hit =
     c\<lparr> miss_ratio_stats := update_metrics (miss_ratio_stats c) atime hit,
        per_hour_miss_ratio_stats := update_metrics (per_hour_miss_ratio_stats c) atime hit \<rparr>"

text \<open>\<^verbatim>\<open>_access_kv\<close>: returns whether the access was a hit.\<close>

definition access_kv ::
  "'a Cache_scheme methods \<Rightarrow> 'a Cache_scheme \<Rightarrow> TraceRecord \<Rightarrow> string \<Rightarrow> int \<Rightarrow> int \<Rightarrow> bool
     \<Rightarrow> py_error + (bool \<times> 'a Cache_scheme)" where
  "access_kv M c r k h vsize noins =
     (if \<not> used_size c \<le> cache_size c then Inl AssertionError
      else case m_lookup M c r k h of
             Inl e \<Rightarrow> Inl e
           | Inr (hit, c1) \<Rightarrow>
               if hit then Inr (True, c1)
               else if noins \<or> vsize \<le> 0 then Inr (False, c1)
               else if vsize > cache_size c1 then Inr (False, c1)
               else (case m_evict M c1 r k h vsize of
                       Inl e \<Rightarrow> Inl e
                     | Inr c2 \<Rightarrow>
                         if m_should_admit M c2 r k h vsize
                         then (case m_insert M c2 r k h vsize of
                                 Inl e \<Rightarrow> Inl e
                               | Inr c3 \<Rightarrow> Inr (False, c3\<lparr> used_size := used_size c3 + vsize \<rparr>))
                         else Inr (False, c2)))"

text \<open>
  \<^verbatim>\<open>_access_row\<close>. Reading a missing key of a dictionary raises \<^verbatim>\<open>KeyError\<close>; the map of
  the get is read again from the state after every call that could have changed it.
\<close>

definition access_row ::
  "'a Cache_scheme methods \<Rightarrow> 'a Cache_scheme \<Rightarrow> TraceRecord \<Rightarrow> py_error + 'a Cache_scheme" where
  "access_row M c r =
     (let g = get_id r;
          c0 = (if g \<notin> dom (get_id_row_key_map c)
                then c\<lparr> get_id_row_key_map := (get_id_row_key_map c)(g \<mapsto> (False, Map.empty)) \<rparr>
                else c)
      in case get_id_row_key_map c0 g of
           None \<Rightarrow> Inl KeyError
         | Some (served0, keys0) \<Rightarrow>
             if served0 then Inr (update_stats c0 (access_time r) True)
             else
               (case (if key_id r \<notin> dom keys0
                      then (case access_kv M c0 r (row_key r) (key_id r) (kv_size r) False of
                              Inl e \<Rightarrow> Inl e
                            | Inr (hit, c1) \<Rightarrow>
                                (case get_id_row_key_map c1 g of
                                   None \<Rightarrow> Inl KeyError
                                 | Some (served1, keys1) \<Rightarrow>
                                     Inr (c1\<lparr> get_id_row_key_map := (get_id_row_key_map c1)
                                                (g \<mapsto> (hit, keys1(key_id r \<mapsto> kv_size r > 0))) \<rparr>)))
                      else Inr c0) of
                  Inl e \<Rightarrow> Inl e
                | Inr c2 \<Rightarrow>
                    (case get_id_row_key_map c2 g of
                       None \<Rightarrow> Inl KeyError
                     | Some (served2, keys2) \<Rightarrow>
                         if served2 then Inr (update_stats c2 (access_time r) True)
                         else
                           (case access_kv M c2 r (block_key r) (block_id r) (block_size r)
                                   (no_insert r) of
                              Inl e \<Rightarrow> Inl e
                            | Inr (hit, c3) \<Rightarrow>
                                (let c4 = update_stats c3 (access_time r) hit
                                 in if kv_size r > 0
                                    then (case get_id_row_key_map c4 g of
                                            None \<Rightarrow> Inl KeyError
                                          | Some (served4, keys4) \<Rightarrow>
                                              (case keys4 (key_id r) of
                                                 None \<Rightarrow> Inl KeyError
                                               | Some inserted \<Rightarrow>
                                                   if \<not> inserted
                                                   then (case access_kv M c4 r (row_key r) (key_id r)
                                                                 (kv_size r) False of
                                                           Inl e \<Rightarrow> Inl e
                                                         | Inr (hit5, c5) \<Rightarrow>
                                                             (case get_id_row_key_map c5 g of
                                                                None \<Rightarrow> Inl KeyError
                                                              | Some (served5, keys5) \<Rightarrow>
                                                                  Inr (c5\<lparr> get_id_row_key_map :=
                                                                    (get_id_row_key_map c5)
                                                                      (g \<mapsto> (served5, keys5(key_id r \<mapsto> True))) \<rparr>)))
                                                   else Inr c4))
                                    else Inr c4)))))"

text \<open>\<^verbatim>\<open>access\<close>: the entry point the simulator calls for every trace record.\<close>

definition access ::
  "'a Cache_scheme methods \<Rightarrow> 'a Cache_scheme \<Rightarrow> TraceRecord \<Rightarrow> py_error + 'a Cache_scheme" where
  "access M c r =
     (if \<not> used_size c \<le> cache_size c then Inl AssertionError
      else if enable_cache_row_key c \<and> caller r = 1 \<and> key_id r \<noteq> 0 \<and> get_id r \<noteq> 0
      then access_row M c r
      else (case access_kv M c r (block_key r) (block_id r) (block_size r) (no_insert r) of
              Inl e \<Rightarrow> Inl e
            | Inr (hit, c1) \<Rightarrow> Inr (update_stats c1 (access_time r) hit)))"

text \<open>The simulator's loop over the trace: one \<^verbatim>\<open>access\<close> per record, until one raises.\<close>

fun accesses ::
  "'a Cache_scheme methods \<Rightarrow> 'a Cache_scheme \<Rightarrow> TraceRecord list \<Rightarrow> py_error + 'a Cache_scheme" where
  "accesses M c [] = Inr c"
| "accesses M c (r # rs) =
     (case access M c r of Inl e \<Rightarrow> Inl e | Inr c' \<Rightarrow> accesses M c' rs)"

subsection \<open>MLCache: eviction by sampling\<close>

text \<open>
  \<^verbatim>\<open>MLCache\<close> adds the hash table. The modules \<^verbatim>\<open>random\<close> and \<^verbatim>\<open>numpy.random\<close> keep generator
  state outside the cache; the model threads it through the cache state: \<open>rng\<close> is the
  sequence of numbers the generator will produce, an arbitrary sequence, and \<open>rng_pos\<close>
  counts the draws made. \<open>sub\<close> holds the fields a subclass (Thompson sampling, LinUCB)
  adds for its own \<^verbatim>\<open>_select_policy\<close>.
\<close>

record 'x MLCache = Cache +
  ml_table :: "CacheEntry HashTable"
  rng :: "nat \<Rightarrow> nat"
  rng_pos :: nat
  sub :: 'x

definition MLCache_lookup ::
  "'x MLCache \<Rightarrow> TraceRecord \<Rightarrow> string \<Rightarrow> int \<Rightarrow> py_error + (bool \<times> 'x MLCache)" where
  "MLCache_lookup c r k h =
     (case HashTable_lookup (ml_table c) k h of
        None \<Rightarrow> Inr (False, c)
      | Some v \<Rightarrow>
          Inr (True,
               c\<lparr> ml_table := HashTable_insert (ml_table c) k h
                    (CacheEntry_init (value_size v) (ce_cf_id v) (ce_level v) (ce_block_type v)
                       (num_accesses (miss_ratio_stats c)) (access_time r) (num_hits v + 1)) \<rparr>))"

definition MLCache_insert ::
  "'x MLCache \<Rightarrow> TraceRecord \<Rightarrow> string \<Rightarrow> int \<Rightarrow> int \<Rightarrow> py_error + 'x MLCache" where
  "MLCache_insert c r k h vsize =
     (if \<not> used_size c + vsize \<le> cache_size c then Inl AssertionError
      else Inr (c\<lparr> ml_table := HashTable_insert (ml_table c) k h
                    (CacheEntry_init vsize (cf_id r) (level r) (block_type r)
                       (num_accesses (miss_ratio_stats c)) (access_time r) 0) \<rparr>))"

text \<open>
  The \<^verbatim>\<open>for hash_entry in samples\<close> loop of \<^verbatim>\<open>evict\<close>: delete the entry (asserting it was
  there), give its size back, record its key as evicted by the policy, stop when the new
  entry fits.
\<close>

fun evict_samples ::
  "'x MLCache \<Rightarrow> nat \<Rightarrow> int \<Rightarrow> CacheEntry HashEntry list \<Rightarrow> py_error + 'x MLCache" where
  "evict_samples c policy_index vsize [] = Inr c"
| "evict_samples c policy_index vsize (e # es) =
     (case HashTable_delete (ml_table c) (hkey e) (hhash e) of
        (None, t') \<Rightarrow> Inl AssertionError
      | (Some d, t') \<Rightarrow>
          (let c1 = c\<lparr> ml_table := t',
                       used_size := used_size c - value_size (hvalue e),
                       policies := (policies c)
                         [policy_index := Policy_evict (policies c ! policy_index) (hkey e)
                                            (elements t')] \<rparr>
           in if used_size c1 + vsize \<le> cache_size c1 then Inr c1
              else evict_samples c1 policy_index vsize es))"

text \<open>
  The \<^verbatim>\<open>while self.used_size + value_size > self.cache_size\<close> loop of \<^verbatim>\<open>evict\<close>. Nothing in the
  code bounds its iterations (on a table without live entries the sample is empty and
  the state does not change), so it is a partial function: \<open>None\<close> is the loop that never
  exits.
\<close>

partial_function (option) evict_loop ::
  "'x MLCache \<Rightarrow> nat \<Rightarrow> TraceRecord \<Rightarrow> int \<Rightarrow> (py_error + 'x MLCache) option" where
  "evict_loop c policy_index r vsize =
     (if used_size c + vsize > cache_size c
      then (case random_sample (ml_table c)
                   (rng c (rng_pos c) mod length (table (ml_table c))) kSampleSize of
              Inl e \<Rightarrow> Some (Inl e)
            | Inr samples \<Rightarrow>
                (case prioritize_samples (kind (policies c ! policy_index)) samples
                        [access_time r] of
                   Inl e \<Rightarrow> Some (Inl e)
                 | Inr samples' \<Rightarrow>
                     (case evict_samples (c\<lparr> rng_pos := rng_pos c + 1 \<rparr>) policy_index vsize
                             samples' of
                        Inl e \<Rightarrow> Some (Inl e)
                      | Inr c' \<Rightarrow> evict_loop c' policy_index r vsize)))
      else Some (Inr c))"

text \<open>
  \<^verbatim>\<open>evict\<close>. \<open>sel\<close> is the \<^verbatim>\<open>_select_policy\<close> of the subclass: from the subclass fields, the
  policies, the record, the key and one draw of the generator it returns the index of
  the selected policy and the updated subclass fields.
\<close>

type_synonym 'x select_policy =
  "'x \<Rightarrow> Policy list \<Rightarrow> TraceRecord \<Rightarrow> string \<Rightarrow> nat \<Rightarrow> py_error + (nat \<times> 'x)"

definition MLCache_evict ::
  "'x select_policy \<Rightarrow> 'x MLCache \<Rightarrow> TraceRecord \<Rightarrow> string \<Rightarrow> int \<Rightarrow> int
     \<Rightarrow> py_error + 'x MLCache" where
  "MLCache_evict sel c r k h vsize =
     (case sel (sub c) (policies c) r k (rng c (rng_pos c)) of
        Inl e \<Rightarrow> Inl e
      | Inr (policy_index, x') \<Rightarrow>
          if \<not> policy_index < length (policies c) then Inl AssertionError
          else
            (case PolicyStats_update_metrics (policy_stats c) (access_time r) policy_index of
               Inl e \<Rightarrow> Inl e
             | Inr s1 \<Rightarrow>
                 (case PolicyStats_update_metrics (per_hour_policy_stats c) (access_time r)
                         policy_index of
                    Inl e \<Rightarrow> Inl e
                  | Inr s2 \<Rightarrow>
                      (case evict_loop
                              (c\<lparr> sub := x', rng_pos := rng_pos c + 1,
                                  policies := (policies c)
                                    [policy_index := Policy_delete (policies c ! policy_index) k],
                                  policy_stats := s1, per_hour_policy_stats := s2 \<rparr>)
                              policy_index r vsize of
                         None \<Rightarrow> Inl NonTermination
                       | Some res \<Rightarrow> res))))"

definition MLCache_methods :: "'x select_policy \<Rightarrow> 'x MLCache methods" where
  "MLCache_methods sel =
     \<lparr> m_lookup = MLCache_lookup, m_evict = MLCache_evict sel, m_insert = MLCache_insert,
       m_should_admit = (\<lambda>c r k h vsize. True) \<rparr>"

text \<open>
  \<^verbatim>\<open>ThompsonSamplingCache\<close>: the counters \<^verbatim>\<open>_as\<close> and \<^verbatim>\<open>_bs\<close>. \<^verbatim>\<open>_select_policy\<close> first draws
  one Beta sample per policy: \<open>beta_samples\<close> is that list comprehension, and returns
  the exception it raises, if any (\<^verbatim>\<open>np.random.beta(a, b)\<close> raises \<^verbatim>\<open>ValueError\<close> unless
  \<open>a > 0\<close> and \<open>b > 0\<close>). The arg-max over the samples can be any index; it is modelled as
  one draw of an index. \<^verbatim>\<open>max\<close> of an empty range raises \<^verbatim>\<open>ValueError\<close>.
\<close>

record ThompsonSampling =
  ts_as :: "int list"
  ts_bs :: "int list"

fun beta_samples :: "int list \<Rightarrow> int list \<Rightarrow> nat list \<Rightarrow> py_error option" where
  "beta_samples as bs [] = None"
| "beta_samples as bs (x # xs) =
     (if \<not> (x < length as \<and> x < length bs) then Some IndexError
      else if as ! x \<le> 0 \<or> bs ! x \<le> 0 then Some ValueError
      else beta_samples as bs xs)"

definition ThompsonSamplingCache_select_policy :: "ThompsonSampling select_policy" where
  "ThompsonSamplingCache_select_policy x ps r k draw =
     (case beta_samples (ts_as x) (ts_bs x) [0..<length ps] of
        Some e \<Rightarrow> Inl e
      | None \<Rightarrow>
          if ps = [] then Inl ValueError
          else (let selected_policy = draw mod length ps;
                    reward = generate_reward (ps ! selected_policy) k
                in if \<not> (reward \<le> 1 \<and> reward \<ge> 0) then Inl AssertionError
                   else if \<not> (selected_policy < length (ts_as x)
                                \<and> selected_policy < length (ts_bs x))
                   then Inl IndexError
                   else Inr (selected_policy,
                             x\<lparr> ts_as := (ts_as x)[selected_policy :=
                                                     ts_as x ! selected_policy + reward],
                                ts_bs := (ts_bs x)[selected_policy :=
                                                     ts_bs x ! selected_policy + (1 - reward)] \<rparr>)))"

definition ThompsonSamplingCache_init ::
  "int \<Rightarrow> bool \<Rightarrow> Policy list \<Rightarrow> int \<Rightarrow> int \<Rightarrow> (nat \<Rightarrow> nat) \<Rightarrow> ThompsonSampling MLCache" where
  "ThompsonSamplingCache_init csize row ps init_a init_b g =
     \<lparr> cache_size = csize, used_size = 0,
       miss_ratio_stats = MissRatioStats_init kSecondsInMinute,
       policy_stats = PolicyStats_init kSecondsInMinute ps,
       per_hour_miss_ratio_stats = MissRatioStats_init kSecondsInHour,
       per_hour_policy_stats = PolicyStats_init kSecondsInHour ps,
       enable_cache_row_key = row, get_id_row_key_map = Map.empty, policies = ps,
       ml_table = HashTable_init, rng = g, rng_pos = 0,
       sub = \<lparr> ts_as = replicate (length ps) init_a, ts_bs = replicate (length ps) init_b \<rparr> \<rparr>"

text \<open>
  \<^verbatim>\<open>LinUCBCache\<close>. Its matrices are floating-point state that only decides which index
  \<^verbatim>\<open>p.argmax()\<close> returns; they are not modelled, and the index is one draw. Storing the
  three features of the record into the context vector converts each to a double,
  which raises \<^verbatim>\<open>OverflowError\<close> for an integer that is too large. \<^verbatim>\<open>np.linalg.inv\<close> raises
  \<^verbatim>\<open>LinAlgError\<close> if the matrix \<open>I + \<Sum> x x\<^sup>T\<close> has rounded to a singular one, which takes
  features whose accumulated squares exceed the 53 bits of a double; this is outside the
  model.
\<close>

definition LinUCBCache_select_policy :: "unit select_policy" where
  "LinUCBCache_select_policy x ps r k draw =
     (case py_float (block_type r) of Inl e \<Rightarrow> Inl e | Inr x0 \<Rightarrow>
      case py_float (level r) of Inl e \<Rightarrow> Inl e | Inr x1 \<Rightarrow>
      case py_float (cf_id r) of Inl e \<Rightarrow> Inl e | Inr x2 \<Rightarrow>
        if ps = [] then Inl ValueError
        else (let selected_policy = draw mod length ps;
                  reward = generate_reward (ps ! selected_policy) k
              in if \<not> (reward \<le> 1 \<and> reward \<ge> 0) then Inl AssertionError
                 else Inr (selected_policy, x)))"

definition LinUCBCache_init ::
  "int \<Rightarrow> bool \<Rightarrow> Policy list \<Rightarrow> (nat \<Rightarrow> nat) \<Rightarrow> unit MLCache" where
  "LinUCBCache_init csize row ps g =
     \<lparr> cache_size = csize, used_size = 0,
       miss_ratio_stats = MissRatioStats_init kSecondsInMinute,
       policy_stats = PolicyStats_init kSecondsInMinute ps,
       per_hour_miss_ratio_stats = MissRatioStats_init kSecondsInHour,
       per_hour_policy_stats = PolicyStats_init kSecondsInHour ps,
       enable_cache_row_key = row, get_id_row_key_map = Map.empty, policies = ps,
       ml_table = HashTable_init, rng = g, rng_pos = 0, sub = () \<rparr>"

subsection \<open>PQTable: a dictionary with a lazily cleaned heap\<close>

text \<open>
  \<^verbatim>\<open>OPTCacheEntry\<close> and \<^verbatim>\<open>GDSizeEntry\<close> share the fields \<^verbatim>\<open>key\<close>, \<^verbatim>\<open>value_size\<close> and
  \<^verbatim>\<open>is_removed\<close>, which is all \<^verbatim>\<open>PQTable\<close> touches; the order of the heap is the
  \<^verbatim>\<open>__cmp__\<close> of the class, passed as \<open>cmp\<close>.
\<close>

record PQEntry =
  ekey :: string
  evalue_size :: int
  is_removed :: bool

record OPTCacheEntry = PQEntry +
  entry_next_access_seq_no :: int

text \<open>
  The priority of a \<^verbatim>\<open>GDSizeEntry\<close> is the float \<^verbatim>\<open>L + value_size\<close>, and \<^verbatim>\<open>L\<close> starts at 0.0
  and is only ever set to a priority: a sum of integer sizes, which a double holds
  exactly (below \<open>2^53\<close>). It is modelled as an integer.
\<close>

record GDSizeEntry = PQEntry +
  priority :: int

definition OPTCacheEntry_init :: "string \<Rightarrow> int \<Rightarrow> int \<Rightarrow> OPTCacheEntry" where
  "OPTCacheEntry_init k seq_no vsize =
     \<lparr> ekey = k, evalue_size = vsize, is_removed = False, entry_next_access_seq_no = seq_no \<rparr>"

definition OPTCacheEntry_cmp :: "OPTCacheEntry \<Rightarrow> OPTCacheEntry \<Rightarrow> int" where
  "OPTCacheEntry_cmp self other =
     (if entry_next_access_seq_no other \<noteq> entry_next_access_seq_no self
      then entry_next_access_seq_no other - entry_next_access_seq_no self
      else evalue_size self - evalue_size other)"

definition GDSizeEntry_init :: "string \<Rightarrow> int \<Rightarrow> int \<Rightarrow> GDSizeEntry" where
  "GDSizeEntry_init k vsize prio =
     \<lparr> ekey = k, evalue_size = vsize, is_removed = False, priority = prio \<rparr>"

definition GDSizeEntry_cmp :: "GDSizeEntry \<Rightarrow> GDSizeEntry \<Rightarrow> int" where
  "GDSizeEntry_cmp self other =
     (if priority other \<noteq> priority self then priority self - priority other
      else evalue_size self - evalue_size other)"

text \<open>
  \<^verbatim>\<open>heapq\<close> is Python's library heap. It is modelled by its contract: the heap is the
  bag of the items pushed and not yet popped, and \<^verbatim>\<open>heappop\<close> takes out a smallest one,
  \<open>x\<close> being smaller than \<open>y\<close> when \<^verbatim>\<open>cmp(x, y) < 0\<close>. Among items that compare equal the
  model takes the one pushed first; which one the library takes depends on the shape
  of its array, and nothing below depends on it.
\<close>

definition heappush :: "'a list \<Rightarrow> 'a \<Rightarrow> 'a list" where
  "heappush h x = h @ [x]"

fun smallest :: "('a \<Rightarrow> 'a \<Rightarrow> bool) \<Rightarrow> 'a \<Rightarrow> 'a list \<Rightarrow> 'a" where
  "smallest lt m [] = m"
| "smallest lt m (x # xs) = smallest lt (if lt x m then x else m) xs"

definition heappop :: "('a \<Rightarrow> 'a \<Rightarrow> bool) \<Rightarrow> 'a list \<Rightarrow> 'a \<times> 'a list" where
  "heappop lt h = (let m = smallest lt (hd h) (tl h) in (m, remove1 m h))"

text \<open>
  The table and the heap hold references to the same entry objects, and \<^verbatim>\<open>pqinsert\<close>
  sets \<^verbatim>\<open>is_removed\<close> on an object the heap still refers to. \<open>objs\<close> is the store of the
  entry objects created so far; a reference is an index into it, and a new object
  takes the next index.
\<close>

record 'e PQTable =
  pq :: "nat list"
  pq_table :: "string \<rightharpoonup> nat"
  objs :: "'e list"

definition PQTable_init :: "'e PQTable" where
  "PQTable_init = \<lparr> pq = [], pq_table = Map.empty, objs = [] \<rparr>"

definition ref_lt :: "('e \<Rightarrow> 'e \<Rightarrow> int) \<Rightarrow> 'e list \<Rightarrow> nat \<Rightarrow> nat \<Rightarrow> bool" where
  "ref_lt cmp os a b = (cmp (os ! a) (os ! b) < 0)"

text \<open>
  \<^verbatim>\<open>pqinsert(entry)\<close>, where \<open>entry\<close> is a newly constructed object. Returns the entry it
  replaced, if any.
\<close>

definition pqinsert ::
  "('a PQEntry_scheme \<Rightarrow> 'a PQEntry_scheme \<Rightarrow> int) \<Rightarrow> 'a PQEntry_scheme PQTable
     \<Rightarrow> 'a PQEntry_scheme \<Rightarrow> 'a PQEntry_scheme option \<times> 'a PQEntry_scheme PQTable" where
  "pqinsert cmp t entry =
     (let removed_entry = pq_table t (ekey entry);
          os = (case removed_entry of
                  None \<Rightarrow> objs t
                | Some old \<Rightarrow> (objs t)[old := (objs t ! old)\<lparr> is_removed := True \<rparr>]);
          new = length os;
          os' = os @ [entry]
      in (map_option (\<lambda>old. os ! old) removed_entry,
          \<lparr> pq = heappush (pq t) new, pq_table = (pq_table t)(ekey entry \<mapsto> new), objs = os' \<rparr>))"

lemma smallest_in: "smallest lt m xs \<in> set (m # xs)"
  by (induction xs arbitrary: m) auto

lemma length_remove1_less: "m \<in> set h \<Longrightarrow> length (remove1 m h) < length h"
  by (induction h) auto

lemma length_heappop: "h \<noteq> [] \<Longrightarrow> length (snd (heappop lt h)) < length h"
proof -
  assume "h \<noteq> []"
  then have "smallest lt (hd h) (tl h) \<in> set h"
    using smallest_in [of lt "hd h" "tl h"] by simp
  then show ?thesis
    by (simp add: heappop_def Let_def length_remove1_less)
qed

text \<open>
  \<^verbatim>\<open>pqpop()\<close>: pop until an entry that is not marked removed comes up; \<^verbatim>\<open>del self.table[key]\<close>
  raises \<^verbatim>\<open>KeyError\<close> if the key is not in the table.
\<close>

function pqpop ::
  "('a PQEntry_scheme \<Rightarrow> 'a PQEntry_scheme \<Rightarrow> int) \<Rightarrow> 'a PQEntry_scheme PQTable
     \<Rightarrow> py_error + ('a PQEntry_scheme option \<times> 'a PQEntry_scheme PQTable)" where
  "pqpop cmp t =
     (if pq t = [] then Inr (None, t)
      else (let (r, h') = heappop (ref_lt cmp (objs t)) (pq t);
                entry = objs t ! r;
                t1 = t\<lparr> pq := h' \<rparr>
            in if \<not> is_removed entry
               then (if ekey entry \<in> dom (pq_table t1)
                     then Inr (Some entry, t1\<lparr> pq_table := (pq_table t1)(ekey entry := None) \<rparr>)
                     else Inl KeyError)
               else pqpop cmp t1))"
  by pat_completeness auto
termination
proof (relation "measure (\<lambda>(cmp, t). length (pq t))")
  show "wf (measure (\<lambda>(cmp, t). length (pq t)))" by simp
next
  fix cmp :: "'a PQEntry_scheme \<Rightarrow> 'a PQEntry_scheme \<Rightarrow> int"
    and t :: "'a PQEntry_scheme PQTable" and x r h' entry t1
  assume "pq t \<noteq> []" "x = heappop (ref_lt cmp (objs t)) (pq t)" "(r, h') = x"
    "t1 = t\<lparr> pq := h' \<rparr>"
  with length_heappop [of "pq t" "ref_lt cmp (objs t)"]
  show "((cmp, t1), (cmp, t)) \<in> measure (\<lambda>(cmp, t). length (pq t))"
    by (cases "heappop (ref_lt cmp (objs t)) (pq t)") auto
qed

declare pqpop.simps [simp del]

lemma pqpop_length:
  "pqpop cmp t = Inr (Some e, t') \<Longrightarrow> length (pq t') < length (pq t)"
proof (induction cmp t rule: pqpop.induct)
  case (1 cmp t)
  show ?case
  proof (cases "pq t = []")
    case True
    with "1.prems" show ?thesis by (simp add: pqpop.simps)
  next
    case False
    obtain r h' where hp: "heappop (ref_lt cmp (objs t)) (pq t) = (r, h')"
      by (cases "heappop (ref_lt cmp (objs t)) (pq t)")
    from length_heappop [OF False, of "ref_lt cmp (objs t)"] hp
    have lt: "length h' < length (pq t)" by simp
    show ?thesis
    proof (cases "is_removed (objs t ! r)")
      case True
      with "1.prems" False hp have "pqpop cmp (t\<lparr> pq := h' \<rparr>) = Inr (Some e, t')"
        by (subst (asm) pqpop.simps) simp
      from "1.IH" [OF False hp [symmetric] refl refl refl _ this] True lt show ?thesis by simp
    next
      case F: False
      with "1.prems" False hp lt show ?thesis
        by (subst (asm) pqpop.simps) (auto simp: Let_def split: if_splits)
    qed
  qed
qed

subsection \<open>OPTCache\<close>

record OPTCache = Cache +
  opt_table :: "OPTCacheEntry PQTable"

definition OPTCache_init :: "int \<Rightarrow> OPTCache" where
  "OPTCache_init csize =
     \<lparr> cache_size = csize, used_size = 0,
       miss_ratio_stats = MissRatioStats_init kSecondsInMinute,
       policy_stats = PolicyStats_init kSecondsInMinute [],
       per_hour_miss_ratio_stats = MissRatioStats_init kSecondsInHour,
       per_hour_policy_stats = PolicyStats_init kSecondsInHour [],
       enable_cache_row_key = False, get_id_row_key_map = Map.empty, policies = [],
       opt_table = PQTable_init \<rparr>"

definition OPTCache_lookup ::
  "OPTCache \<Rightarrow> TraceRecord \<Rightarrow> string \<Rightarrow> int \<Rightarrow> py_error + (bool \<times> OPTCache)" where
  "OPTCache_lookup c r k h =
     (case pq_table (opt_table c) k of
        None \<Rightarrow> Inr (False, c)
      | Some old \<Rightarrow>
          (case pqinsert OPTCacheEntry_cmp (opt_table c)
                  (OPTCacheEntry_init k (next_access_seq_no r)
                     (evalue_size (objs (opt_table c) ! old))) of
             (None, t') \<Rightarrow> Inl AssertionError
           | (Some removed, t') \<Rightarrow> Inr (True, c\<lparr> opt_table := t' \<rparr>)))"

function OPTCache_evict ::
  "OPTCache \<Rightarrow> TraceRecord \<Rightarrow> string \<Rightarrow> int \<Rightarrow> int \<Rightarrow> py_error + OPTCache" where
  "OPTCache_evict c r k h vsize =
     (if used_size c + vsize > cache_size c
      then (case pqpop OPTCacheEntry_cmp (opt_table c) of
              Inl e \<Rightarrow> Inl e
            | Inr (None, t') \<Rightarrow> Inl AssertionError
            | Inr (Some evict_entry, t') \<Rightarrow>
                OPTCache_evict (c\<lparr> opt_table := t',
                                   used_size := used_size c - evalue_size evict_entry \<rparr>)
                               r k h vsize)
      else Inr c)"
  by pat_completeness auto
termination
  by (relation "measure (\<lambda>(c, r, k, h, vsize). length (pq (opt_table c)))")
     (auto dest: pqpop_length)

declare OPTCache_evict.simps [simp del]

definition OPTCache_insert ::
  "OPTCache \<Rightarrow> TraceRecord \<Rightarrow> string \<Rightarrow> int \<Rightarrow> int \<Rightarrow> py_error + OPTCache" where
  "OPTCache_insert c r k h vsize =
     (case pqinsert OPTCacheEntry_cmp (opt_table c)
             (OPTCacheEntry_init k (next_access_seq_no r) vsize) of
        (None, t') \<Rightarrow> Inr (c\<lparr> opt_table := t' \<rparr>)
      | (Some removed, t') \<Rightarrow> Inl AssertionError)"

definition OPTCache_methods :: "OPTCache methods" where
  "OPTCache_methods =
     \<lparr> m_lookup = OPTCache_lookup, m_evict = OPTCache_evict, m_insert = OPTCache_insert,
       m_should_admit = (\<lambda>c r k h vsize. True) \<rparr>"

subsection \<open>GDSizeCache\<close>

record GDSizeCache = Cache +
  gds_table :: "GDSizeEntry PQTable"
  L :: int

definition GDSizeCache_init :: "int \<Rightarrow> GDSizeCache" where
  "GDSizeCache_init csize =
     \<lparr> cache_size = csize, used_size = 0,
       miss_ratio_stats = MissRatioStats_init kSecondsInMinute,
       policy_stats = PolicyStats_init kSecondsInMinute [],
       per_hour_miss_ratio_stats = MissRatioStats_init kSecondsInHour,
       per_hour_policy_stats = PolicyStats_init kSecondsInHour [],
       enable_cache_row_key = False, get_id_row_key_map = Map.empty, policies = [],
       gds_table = PQTable_init, L = 0 \<rparr>"

definition GDSizeCache_lookup ::
  "GDSizeCache \<Rightarrow> TraceRecord \<Rightarrow> string \<Rightarrow> int \<Rightarrow> py_error + (bool \<times> GDSizeCache)" where
  "GDSizeCache_lookup c r k h =
     (case pq_table (gds_table c) k of
        None \<Rightarrow> Inr (False, c)
      | Some old \<Rightarrow>
          (let entry = objs (gds_table c) ! old
           in case pqinsert GDSizeEntry_cmp (gds_table c)
                     (GDSizeEntry_init k (evalue_size entry) (L c + evalue_size entry)) of
                (None, t') \<Rightarrow> Inl AssertionError
              | (Some removed, t') \<Rightarrow> Inr (True, c\<lparr> gds_table := t' \<rparr>)))"

function GDSizeCache_evict ::
  "GDSizeCache \<Rightarrow> TraceRecord \<Rightarrow> string \<Rightarrow> int \<Rightarrow> int \<Rightarrow> py_error + GDSizeCache" where
  "GDSizeCache_evict c r k h vsize =
     (if used_size c + vsize > cache_size c
      then (case pqpop GDSizeEntry_cmp (gds_table c) of
              Inl e \<Rightarrow> Inl e
            | Inr (None, t') \<Rightarrow> Inl AssertionError
            | Inr (Some evict_entry, t') \<Rightarrow>
                GDSizeCache_evict (c\<lparr> gds_table := t', L := priority evict_entry,
                                      used_size := used_size c - evalue_size evict_entry \<rparr>)
                                  r k h vsize)
      else Inr c)"
  by pat_completeness auto
termination
  by (relation "measure (\<lambda>(c, r, k, h, vsize). length (pq (gds_table c)))")
     (auto dest: pqpop_length)

declare GDSizeCache_evict.simps [simp del]

definition GDSizeCache_insert ::
  "GDSizeCache \<Rightarrow> TraceRecord \<Rightarrow> string \<Rightarrow> int \<Rightarrow> int \<Rightarrow> py_error + GDSizeCache" where
  "GDSizeCache_insert c r k h vsize =
     (case pqinsert GDSizeEntry_cmp (gds_table c) (GDSizeEntry_init k vsize (L c + vsize)) of
        (None, t') \<Rightarrow> Inr (c\<lparr> gds_table := t' \<rparr>)
      | (Some removed, t') \<Rightarrow> Inl AssertionError)"

definition GDSizeCache_methods :: "GDSizeCache methods" where
  "GDSizeCache_methods =
     \<lparr> m_lookup = GDSizeCache_lookup, m_evict = GDSizeCache_evict,
       m_insert = GDSizeCache_insert, m_should_admit = (\<lambda>c r k h vsize. True) \<rparr>"

subsection \<open>Deque\<close>

text \<open>
  A \<^verbatim>\<open>Deque\<close> wraps an \<^verbatim>\<open>OrderedDict\<close> whose values are unused: the list of its keys in
  insertion order, the oldest first. \<^verbatim>\<open>appendleft\<close> puts a key last in that order and \<^verbatim>\<open>pop\<close>
  takes the first (\<^verbatim>\<open>popitem(last=False)\<close>).
\<close>

type_synonym Deque = "string list"

definition appendleft :: "Deque \<Rightarrow> string \<Rightarrow> Deque" where
  "appendleft od k = removeAll k od @ [k]"

definition Deque_pop :: "Deque \<Rightarrow> string option \<times> Deque" where
  "Deque_pop od = (case od of [] \<Rightarrow> (None, []) | k # ks \<Rightarrow> (Some k, ks))"

definition Deque_remove :: "Deque \<Rightarrow> string \<Rightarrow> py_error + Deque" where
  "Deque_remove od k = (if k \<in> set od then Inr (removeAll k od) else Inl KeyError)"

subsection \<open>LRUCache\<close>

record LRUCache = Cache +
  lru_table :: "string \<rightharpoonup> CacheEntry"
  lru :: Deque

definition LRUCache_init :: "int \<Rightarrow> LRUCache" where
  "LRUCache_init csize =
     \<lparr> cache_size = csize, used_size = 0,
       miss_ratio_stats = MissRatioStats_init kSecondsInMinute,
       policy_stats = PolicyStats_init kSecondsInMinute [],
       per_hour_miss_ratio_stats = MissRatioStats_init kSecondsInHour,
       per_hour_policy_stats = PolicyStats_init kSecondsInHour [],
       enable_cache_row_key = False, get_id_row_key_map = Map.empty, policies = [],
       lru_table = Map.empty, lru = [] \<rparr>"

definition LRUCache_lookup ::
  "LRUCache \<Rightarrow> TraceRecord \<Rightarrow> string \<Rightarrow> int \<Rightarrow> py_error + (bool \<times> LRUCache)" where
  "LRUCache_lookup c r k h =
     (if k \<notin> dom (lru_table c) then Inr (False, c)
      else (case Deque_remove (lru c) k of
              Inl e \<Rightarrow> Inl e
            | Inr od \<Rightarrow> Inr (True, c\<lparr> lru := appendleft od k \<rparr>)))"

text \<open>
  On an empty deque \<^verbatim>\<open>pop\<close> returns \<^verbatim>\<open>None\<close>, and \<^verbatim>\<open>self.table[None]\<close> raises \<^verbatim>\<open>KeyError\<close>.
\<close>

function LRUCache_evict ::
  "LRUCache \<Rightarrow> TraceRecord \<Rightarrow> string \<Rightarrow> int \<Rightarrow> int \<Rightarrow> py_error + LRUCache" where
  "LRUCache_evict c r k h vsize =
     (if used_size c + vsize > cache_size c
      then (case Deque_pop (lru c) of
              (None, od) \<Rightarrow> Inl KeyError
            | (Some evict_key, od) \<Rightarrow>
                (case lru_table c evict_key of
                   None \<Rightarrow> Inl KeyError
                 | Some entry \<Rightarrow>
                     LRUCache_evict (c\<lparr> lru := od,
                                        used_size := used_size c - value_size entry,
                                        lru_table := (lru_table c)(evict_key := None) \<rparr>)
                                    r k h vsize))
      else Inr c)"
  by pat_completeness auto
termination
  by (relation "measure (\<lambda>(c, r, k, h, vsize). length (lru c))")
     (auto simp: Deque_pop_def split: list.splits)

declare LRUCache_evict.simps [simp del]

definition LRUCache_insert ::
  "LRUCache \<Rightarrow> TraceRecord \<Rightarrow> string \<Rightarrow> int \<Rightarrow> int \<Rightarrow> py_error + LRUCache" where
  "LRUCache_insert c r k h vsize =
     Inr (c\<lparr> lru_table := (lru_table c)
                  (k \<mapsto> CacheEntry_init vsize (cf_id r) (level r) (block_type r) 0
                         (access_time r) 0),
             lru := appendleft (lru c) k \<rparr>)"

definition LRUCache_methods :: "LRUCache methods" where
  "LRUCache_methods =
     \<lparr> m_lookup = LRUCache_lookup, m_evict = LRUCache_evict, m_insert = LRUCache_insert,
       m_should_admit = (\<lambda>c r k h vsize. True) \<rparr>"

subsection \<open>ARCCache\<close>

text \<open>
  \<^verbatim>\<open>self.c = cache_size / 16 * 1024\<close>: division and multiplication associate to the left.
\<close>

definition ARCCache_c :: "int \<Rightarrow> int" where
  "ARCCache_c csize = csize div 16 * 1024"

record ARCCache = Cache +
  arc_table :: "string \<rightharpoonup> CacheEntry"
  arc_c :: int
  arc_p :: int
  t1 :: Deque
  b1 :: Deque
  t2 :: Deque
  b2 :: Deque

definition ARCCache_init :: "int \<Rightarrow> ARCCache" where
  "ARCCache_init csize =
     \<lparr> cache_size = csize, used_size = 0,
       miss_ratio_stats = MissRatioStats_init kSecondsInMinute,
       policy_stats = PolicyStats_init kSecondsInMinute [],
       per_hour_miss_ratio_stats = MissRatioStats_init kSecondsInHour,
       per_hour_policy_stats = PolicyStats_init kSecondsInHour [],
       enable_cache_row_key = False, get_id_row_key_map = Map.empty, policies = [],
       arc_table = Map.empty, arc_c = ARCCache_c csize, arc_p = 0,
       t1 = [], b1 = [], t2 = [], b2 = [] \<rparr>"

text \<open>
  One iteration of the loop of \<^verbatim>\<open>_replace\<close>: move the oldest key of \<open>t1\<close> or \<open>t2\<close> to the
  ghost list and drop its entry. Popping the empty \<open>t1\<close> gives \<^verbatim>\<open>None\<close>, and
  \<^verbatim>\<open>self.table[None]\<close> raises \<^verbatim>\<open>KeyError\<close>.
\<close>

definition ARCCache_demote :: "ARCCache \<Rightarrow> string \<Rightarrow> py_error + ARCCache" where
  "ARCCache_demote c k =
     (case (if t1 c \<noteq> [] \<and> (k \<in> set (b2 c) \<or> int (length (t1 c)) > arc_p c)
            then (case Deque_pop (t1 c) of
                    (None, od) \<Rightarrow> Inl KeyError
                  | (Some old, od) \<Rightarrow> Inr (old, c\<lparr> t1 := od, b1 := appendleft (b1 c) old \<rparr>))
            else if t2 c \<noteq> []
            then (case Deque_pop (t2 c) of
                    (None, od) \<Rightarrow> Inl KeyError
                  | (Some old, od) \<Rightarrow> Inr (old, c\<lparr> t2 := od, b2 := appendleft (b2 c) old \<rparr>))
            else (case Deque_pop (t1 c) of
                    (None, od) \<Rightarrow> Inl KeyError
                  | (Some old, od) \<Rightarrow> Inr (old, c\<lparr> t1 := od, b1 := appendleft (b1 c) old \<rparr>))) of
        Inl e \<Rightarrow> Inl e
      | Inr (old, c1) \<Rightarrow>
          (case arc_table c1 old of
             None \<Rightarrow> Inl KeyError
           | Some entry \<Rightarrow>
               Inr (c1\<lparr> used_size := used_size c1 - value_size entry,
                        arc_table := (arc_table c1)(old := None) \<rparr>)))"

lemma ARCCache_demote_length:
  "ARCCache_demote c k = Inr c' \<Longrightarrow> length (t1 c') + length (t2 c') < length (t1 c) + length (t2 c)"
  by (auto simp: ARCCache_demote_def Deque_pop_def split: if_splits list.splits option.splits)

function ARCCache_replace :: "ARCCache \<Rightarrow> string \<Rightarrow> int \<Rightarrow> py_error + ARCCache" where
  "ARCCache_replace c k vsize =
     (if used_size c + vsize > cache_size c
      then (case ARCCache_demote c k of
              Inl e \<Rightarrow> Inl e
            | Inr c' \<Rightarrow> ARCCache_replace c' k vsize)
      else Inr c)"
  by pat_completeness auto
termination
  by (relation "measure (\<lambda>(c, k, vsize). length (t1 c) + length (t2 c))")
     (auto dest: ARCCache_demote_length)

declare ARCCache_replace.simps [simp del]

definition ARCCache_lookup ::
  "ARCCache \<Rightarrow> TraceRecord \<Rightarrow> string \<Rightarrow> int \<Rightarrow> py_error + (bool \<times> ARCCache)" where
  "ARCCache_lookup c r k h =
     (if k \<in> set (t1 c)
      then (case Deque_remove (t1 c) k of
              Inl e \<Rightarrow> Inl e
            | Inr od \<Rightarrow> Inr (True, c\<lparr> t1 := od, t2 := appendleft (t2 c) k \<rparr>))
      else if k \<in> set (t2 c)
      then (case Deque_remove (t2 c) k of
              Inl e \<Rightarrow> Inl e
            | Inr od \<Rightarrow> Inr (True, c\<lparr> t2 := appendleft od k \<rparr>))
      else Inr (False, c))"

text \<open>
  The two trimming loops of case IV of \<^verbatim>\<open>evict\<close>: pop from \<open>b1\<close> while
  \<^verbatim>\<open>len(t1) + len(b1) >= c\<close>, then from \<open>b2\<close> while the running \<^verbatim>\<open>total >= 2 * c\<close>.
\<close>

fun trim_b1 :: "int \<Rightarrow> int \<Rightarrow> Deque \<Rightarrow> Deque" where
  "trim_b1 t1_len cc [] = []"
| "trim_b1 t1_len cc (x # xs) =
     (if t1_len + int (length (x # xs)) \<ge> cc then trim_b1 t1_len cc xs else x # xs)"

fun trim_b2 :: "int \<Rightarrow> int \<Rightarrow> Deque \<Rightarrow> Deque" where
  "trim_b2 total_len cc [] = []"
| "trim_b2 total_len cc (x # xs) =
     (if total_len \<ge> 2 * cc then trim_b2 (total_len - 1) cc xs else x # xs)"

definition ARCCache_evict ::
  "ARCCache \<Rightarrow> TraceRecord \<Rightarrow> string \<Rightarrow> int \<Rightarrow> int \<Rightarrow> py_error + ARCCache" where
  "ARCCache_evict c r k h vsize =
     (if k \<in> set (b1 c)
      then (case ARCCache_replace
                   (c\<lparr> arc_p := min (arc_c c)
                                  (arc_p c + max (int (length (b2 c)) div int (length (b1 c))) 1) \<rparr>)
                   k vsize of
              Inl e \<Rightarrow> Inl e
            | Inr c1 \<Rightarrow>
                (case Deque_remove (b1 c1) k of
                   Inl e \<Rightarrow> Inl e
                 | Inr od \<Rightarrow> Inr (c1\<lparr> b1 := od, t2 := appendleft (t2 c1) k \<rparr>)))
      else if k \<in> set (b2 c)
      then (case ARCCache_replace
                   (c\<lparr> arc_p := max 0
                                  (arc_p c - max (int (length (b1 c)) div int (length (b2 c))) 1) \<rparr>)
                   k vsize of
              Inl e \<Rightarrow> Inl e
            | Inr c1 \<Rightarrow>
                (case Deque_remove (b2 c1) k of
                   Inl e \<Rightarrow> Inl e
                 | Inr od \<Rightarrow> Inr (c1\<lparr> b2 := od, t2 := appendleft (t2 c1) k \<rparr>)))
      else (case ARCCache_replace c k vsize of
              Inl e \<Rightarrow> Inl e
            | Inr c1 \<Rightarrow>
                (let b1' = trim_b1 (int (length (t1 c1))) (arc_c c1) (b1 c1);
                     total_len = int (length (t1 c1)) + int (length b1') + int (length (t2 c1))
                                 + int (length (b2 c1));
                     b2' = trim_b2 total_len (arc_c c1) (b2 c1)
                 in Inr (c1\<lparr> b1 := b1', b2 := b2', t1 := appendleft (t1 c1) k \<rparr>))))"

definition ARCCache_insert ::
  "ARCCache \<Rightarrow> TraceRecord \<Rightarrow> string \<Rightarrow> int \<Rightarrow> int \<Rightarrow> py_error + ARCCache" where
  "ARCCache_insert c r k h vsize =
     Inr (c\<lparr> arc_table := (arc_table c)
                  (k \<mapsto> CacheEntry_init vsize (cf_id r) (level r) (block_type r) 0
                         (access_time r) 0) \<rparr>)"

definition ARCCache_methods :: "ARCCache methods" where
  "ARCCache_methods =
     \<lparr> m_lookup = ARCCache_lookup, m_evict = ARCCache_evict, m_insert = ARCCache_insert,
       m_should_admit = (\<lambda>c r k h vsize. True) \<rparr>"

section \<open>The hash table refines a dictionary\<close>

text \<open>
  \<open>ht_live\<close> is the bag of live entries of a table. A table is well formed when it has
  at least one bucket, every live entry sits in the bucket of its hash, and no two live
  entries have the same key and hash. Construction establishes this and insert, delete
  and resize keep it.
\<close>

definition ht_live :: "'v bucket option list \<Rightarrow> 'v HashEntry multiset" where
  "ht_live tbl = mset (live_entries tbl)"

definition same_key :: "string \<Rightarrow> int \<Rightarrow> 'v HashEntry \<Rightarrow> bool" where
  "same_key k h e = (hhash e = h \<and> hkey e = k)"

definition placed :: "'v bucket option list \<Rightarrow> bool" where
  "placed tbl =
     (\<forall>i < length tbl. \<forall>e \<in> set (live_slots (slots_of (tbl ! i))).
        bucket_index (length tbl) (hhash e) = i)"

definition uniq :: "'v HashEntry multiset \<Rightarrow> bool" where
  "uniq M = (\<forall>k h. size {#e \<in># M. same_key k h e#} \<le> 1)"

definition ht_wf :: "'v HashTable \<Rightarrow> bool" where
  "ht_wf t =
     (0 < initial_size t \<and> 0 < length (table t)
      \<and> placed (table t) \<and> uniq (ht_live (table t)))"

lemma slots_of_simps [simp]: "slots_of None = []" "slots_of (Some ss) = ss"
  by (simp_all add: slots_of_def)

lemma ht_live_Nil [simp]: "ht_live [] = {#}"
  by (simp add: ht_live_def live_entries_def)

lemma ht_live_Cons [simp]: "ht_live (b # tbl) = mset (live_slots (slots_of b)) + ht_live tbl"
  by (simp add: ht_live_def live_entries_def)

lemma ht_live_replicate [simp]: "ht_live (replicate n None) = {#}"
  by (induction n) simp_all

lemma ht_live_update:
  "i < length tbl \<Longrightarrow>
   ht_live (tbl[i := b]) + mset (live_slots (slots_of (tbl ! i)))
     = ht_live tbl + mset (live_slots (slots_of b))"
proof (induction tbl arbitrary: i)
  case Nil
  then show ?case by simp
next
  case (Cons a tbl)
  show ?case
  proof (cases i)
    case 0
    then show ?thesis by simp
  next
    case (Suc j)
    with Cons.prems have "j < length tbl" by simp
    from Cons.IH [OF this] Suc show ?thesis by (simp add: ac_simps)
  qed
qed

lemma ht_live_nth_subset:
  "i < length tbl \<Longrightarrow> mset (live_slots (slots_of (tbl ! i))) \<subseteq># ht_live tbl"
proof (induction tbl arbitrary: i)
  case Nil
  then show ?case by simp
next
  case (Cons a tbl)
  show ?case
  proof (cases i)
    case 0
    then show ?thesis by simp
  next
    case (Suc j)
    with Cons.prems have "j < length tbl" by simp
    from Cons.IH [OF this] Suc show ?thesis
      by (simp add: subset_mset.add_increasing)
  qed
qed

lemma ht_live_member:
  "e \<in># ht_live tbl \<longleftrightarrow> (\<exists>i < length tbl. e \<in> set (live_slots (slots_of (tbl ! i))))"
proof (induction tbl)
  case Nil
  then show ?case by simp
next
  case (Cons a tbl)
  show ?case
  proof
    assume "e \<in># ht_live (a # tbl)"
    then consider "e \<in> set (live_slots (slots_of a))" | "e \<in># ht_live tbl" by auto
    then show "\<exists>i<length (a # tbl). e \<in> set (live_slots (slots_of ((a # tbl) ! i)))"
    proof cases
      case 1
      then show ?thesis by (intro exI [of _ 0]) simp
    next
      case 2
      with Cons.IH obtain i where "i < length tbl" "e \<in> set (live_slots (slots_of (tbl ! i)))"
        by blast
      then show ?thesis by (intro exI [of _ "Suc i"]) simp
    qed
  next
    assume "\<exists>i<length (a # tbl). e \<in> set (live_slots (slots_of ((a # tbl) ! i)))"
    then obtain i where i: "i < length (a # tbl)" "e \<in> set (live_slots (slots_of ((a # tbl) ! i)))"
      by blast
    show "e \<in># ht_live (a # tbl)"
    proof (cases i)
      case 0
      with i show ?thesis by simp
    next
      case (Suc j)
      with i Cons.IH show ?thesis by auto
    qed
  qed
qed

lemma lookup_slots_Some:
  "lookup_slots k h ss = Some v \<Longrightarrow>
   \<exists>e \<in> set (live_slots ss). same_key k h e \<and> hvalue e = v"
  by (induction k h ss rule: lookup_slots.induct) (auto simp: same_key_def split: if_splits)

lemma lookup_slots_None:
  "lookup_slots k h ss = None \<longleftrightarrow> (\<forall>e \<in> set (live_slots ss). \<not> same_key k h e)"
  by (induction k h ss rule: lookup_slots.induct) (auto simp: same_key_def)

lemma replace_slot_None:
  "replace_slot e ss = None \<longleftrightarrow> (\<forall>x \<in> set (live_slots ss). \<not> same_key (hkey e) (hhash e) x)"
  by (induction e ss rule: replace_slot.induct) (auto simp: same_key_def)

lemma replace_slot_Some:
  "replace_slot e ss = Some ss' \<Longrightarrow>
   \<exists>x. x \<in> set (live_slots ss) \<and> same_key (hkey e) (hhash e) x
       \<and> add_mset x (mset (live_slots ss')) = add_mset e (mset (live_slots ss))"
  by (induction e ss arbitrary: ss' rule: replace_slot.induct)
     (auto simp: same_key_def split: if_splits)

lemma fill_slot_Some:
  "fill_slot e ss = Some ss' \<Longrightarrow> mset (live_slots ss') = add_mset e (mset (live_slots ss))"
  by (induction e ss arbitrary: ss' rule: fill_slot.induct) auto

lemma live_slots_append [simp]: "live_slots (ss @ ss') = live_slots ss @ live_slots ss'"
  by (induction ss rule: live_slots.induct) auto

lemma delete_slot_None:
  "delete_slot k h ss = None \<longleftrightarrow> (\<forall>x \<in> set (live_slots ss). \<not> same_key k h x)"
  by (induction k h ss rule: delete_slot.induct) (auto simp: same_key_def)

lemma delete_slot_Some:
  "delete_slot k h ss = Some (d, ss') \<Longrightarrow>
   same_key k h d \<and> mset (live_slots ss) = add_mset d (mset (live_slots ss'))"
  by (induction k h ss arbitrary: d ss' rule: delete_slot.induct)
     (auto simp: same_key_def split: if_splits)


lemma bucket_index_less: "0 < n \<Longrightarrow> bucket_index n h < n"
  by (simp add: bucket_index_def nat_less_iff)

lemma uniq_split:
  assumes "uniq M" "x \<in># M" "same_key k h x"
  shows "M = add_mset x {#y \<in># M. \<not> same_key k h y#}"
proof -
  let ?F = "{#y \<in># M. same_key k h y#}"
  from assms(2,3) have "x \<in># ?F" by simp
  then obtain F' where F: "?F = add_mset x F'" by (meson multi_member_split)
  from assms(1) have "size ?F \<le> 1" by (simp add: uniq_def)
  with F have "F' = {#}" by simp
  with F have "?F = {#x#}" by simp
  moreover have "M = ?F + {#y \<in># M. \<not> same_key k h y#}" by (rule multiset_partition)
  ultimately show ?thesis by simp
qed

lemma uniq_eq:
  assumes "uniq M" "x \<in># M" "y \<in># M" "same_key k h x" "same_key k h y"
  shows "x = y"
proof -
  from uniq_split [OF assms(1,2,4)] have "M = add_mset x {#y \<in># M. \<not> same_key k h y#}" .
  with assms(3) have "y \<in># add_mset x {#y \<in># M. \<not> same_key k h y#}" by simp
  with assms(5) show ?thesis by auto
qed

lemma uniq_absent:
  "(\<forall>x \<in># M. \<not> same_key k h x) \<Longrightarrow> {#y \<in># M. \<not> same_key k h y#} = M"
  by (simp add: filter_mset_eq_conv)

lemma same_key_cases:
  "same_key k h x \<Longrightarrow> same_key k' h' x \<longleftrightarrow> (k' = k \<and> h' = h)"
  by (auto simp: same_key_def)

lemma uniq_filter: "uniq M \<Longrightarrow> uniq {#y \<in># M. P y#}"
proof -
  assume u: "uniq M"
  show ?thesis
    unfolding uniq_def
  proof (intro allI)
    fix k h
    have "{#e \<in># {#y \<in># M. P y#}. same_key k h e#} \<subseteq># {#e \<in># M. same_key k h e#}"
      by (simp add: multiset_filter_mono)
    then have "size {#e \<in># {#y \<in># M. P y#}. same_key k h e#} \<le> size {#e \<in># M. same_key k h e#}"
      by (rule size_mset_mono)
    with u show "size {#e \<in># {#y \<in># M. P y#}. same_key k h e#} \<le> 1"
      by (auto simp: uniq_def intro: order_trans)
  qed
qed

lemma uniq_add:
  assumes "uniq M" "\<forall>x \<in># M. \<not> same_key (hkey e) (hhash e) x"
  shows "uniq (add_mset e M)"
  unfolding uniq_def
proof (intro allI)
  fix k h
  show "size {#x \<in># add_mset e M. same_key k h x#} \<le> 1"
  proof (cases "same_key k h e")
    case True
    then have "k = hkey e" "h = hhash e" by (auto simp: same_key_def)
    with assms(2) have "{#x \<in># M. same_key k h x#} = {#}"
      by simp
    with True show ?thesis by simp
  next
    case False
    with assms(1) show ?thesis by (simp add: uniq_def)
  qed
qed

lemma lookup_Some_iff:
  assumes "ht_wf t"
  shows "HashTable_lookup t k h = Some v \<longleftrightarrow>
         (\<exists>e. e \<in># ht_live (table t) \<and> same_key k h e \<and> hvalue e = v)"
proof -
  let ?n = "length (table t)"
  let ?i = "bucket_index ?n h"
  from assms have n: "0 < ?n" and pl: "placed (table t)" and un: "uniq (ht_live (table t))"
    by (simp_all add: ht_wf_def)
  have i: "?i < ?n" using n by (rule bucket_index_less)
  have lk: "HashTable_lookup t k h = lookup_slots k h (slots_of (table t ! ?i))"
    by (simp add: HashTable_lookup_def slots_of_def split: option.splits)
  show ?thesis
  proof
    assume "HashTable_lookup t k h = Some v"
    with lk have "lookup_slots k h (slots_of (table t ! ?i)) = Some v" by simp
    from lookup_slots_Some [OF this]
    obtain e where "e \<in> set (live_slots (slots_of (table t ! ?i)))"
        "same_key k h e" "hvalue e = v" by blast
    with i show "\<exists>e. e \<in># ht_live (table t) \<and> same_key k h e \<and> hvalue e = v"
      by (auto simp: ht_live_member)
  next
    assume "\<exists>e. e \<in># ht_live (table t) \<and> same_key k h e \<and> hvalue e = v"
    then obtain e where e: "e \<in># ht_live (table t)" "same_key k h e" "hvalue e = v" by blast
    then obtain j where j: "j < ?n" "e \<in> set (live_slots (slots_of (table t ! j)))"
      by (auto simp: ht_live_member)
    with pl have "bucket_index ?n (hhash e) = j" by (simp add: placed_def)
    with e(2) have "j = ?i" by (simp add: same_key_def)
    with j e(2) have "lookup_slots k h (slots_of (table t ! ?i)) \<noteq> None"
      by (auto simp: lookup_slots_None)
    then obtain w where w: "lookup_slots k h (slots_of (table t ! ?i)) = Some w" by blast
    from lookup_slots_Some [OF this]
    obtain x where x: "x \<in> set (live_slots (slots_of (table t ! ?i)))"
        "same_key k h x" "hvalue x = w" by blast
    with i have "x \<in># ht_live (table t)" by (auto simp: ht_live_member)
    from uniq_eq [OF un this e(1) x(2) e(2)] x(3) e(3) have "w = v" by simp
    with w lk show "HashTable_lookup t k h = Some v" by simp
  qed
qed

lemma placed_update:
  assumes "placed tbl" "i < length tbl"
    "\<forall>e \<in> set (live_slots (slots_of b)). bucket_index (length tbl) (hhash e) = i"
  shows "placed (tbl[i := b])"
  using assms by (auto simp: placed_def nth_list_update)

lemma placed_replicate: "placed (replicate n None)"
  by (simp add: placed_def)

lemma copy_entry_props:
  assumes "0 < n" "length nt = n" "placed nt"
  shows "length (copy_entry n nt e) = n \<and> placed (copy_entry n nt e)
         \<and> ht_live (copy_entry n nt e) = add_mset e (ht_live nt)"
proof -
  let ?i = "bucket_index n (hhash e)"
  have i: "?i < length nt" using assms(1,2) by (simp add: bucket_index_less)
  have ce: "copy_entry n nt e = nt[?i := Some (slots_of (nt ! ?i) @ [Some e])]"
    by (simp add: copy_entry_def Let_def)
  have old: "\<forall>x \<in> set (live_slots (slots_of (nt ! ?i))). bucket_index (length nt) (hhash x) = ?i"
    using assms(3) i by (simp add: placed_def)
  have "\<forall>x \<in> set (live_slots (slots_of (Some (slots_of (nt ! ?i) @ [Some e])))).
          bucket_index (length nt) (hhash x) = ?i"
    using old assms(2) by simp
  from placed_update [OF assms(3) i this] have "placed (copy_entry n nt e)" by (simp add: ce)
  moreover from ht_live_update [OF i, of "Some (slots_of (nt ! ?i) @ [Some e])"]
  have "ht_live (copy_entry n nt e) = add_mset e (ht_live nt)"
    by (simp add: ce)
  ultimately show ?thesis using assms(2) by (simp add: ce)
qed

lemma foldl_copy_entry_props:
  assumes "0 < n"
  shows "length nt = n \<Longrightarrow> placed nt \<Longrightarrow>
         length (foldl (copy_entry n) nt es) = n \<and> placed (foldl (copy_entry n) nt es)
         \<and> ht_live (foldl (copy_entry n) nt es) = ht_live nt + mset es"
proof (induction es arbitrary: nt)
  case Nil
  then show ?case by simp
next
  case (Cons e es)
  from copy_entry_props [OF assms Cons.prems, of e]
  have c: "length (copy_entry n nt e) = n" "placed (copy_entry n nt e)"
    "ht_live (copy_entry n nt e) = add_mset e (ht_live nt)" by simp_all
  from Cons.IH [OF c(1,2)] c(3) show ?case by simp
qed

lemma resize_props:
  assumes "ht_wf t"
  shows "ht_wf (resize t n) \<and> ht_live (table (resize t n)) = ht_live (table t)
         \<and> elements (resize t n) = elements t \<and> initial_size (resize t n) = initial_size t"
proof (cases "n = length (table t) \<or> n < initial_size t \<or> elements t < 100")
  case True
  with assms show ?thesis by (auto simp: resize_def)
next
  case False
  with assms have n: "0 < n" by (simp add: ht_wf_def)
  from False have r: "resize t n = t\<lparr> table := foldl (copy_entry n) (replicate n None)
                                (live_entries (table t)) \<rparr>"
    by (simp add: resize_def)
  have "mset (live_entries (table t)) = ht_live (table t)" by (simp add: ht_live_def)
  with foldl_copy_entry_props [OF n, of "replicate n None" "live_entries (table t)"]
  have "length (table (resize t n)) = n" "placed (table (resize t n))"
    "ht_live (table (resize t n)) = ht_live (table t)"
    by (simp_all add: r placed_replicate)
  with assms n show ?thesis by (simp add: ht_wf_def r)
qed

lemma grow_props:
  "ht_wf t \<Longrightarrow> ht_wf (grow t) \<and> ht_live (table (grow t)) = ht_live (table t)
     \<and> elements (grow t) = elements t \<and> initial_size (grow t) = initial_size t"
  using resize_props [of t "3 * length (table t) div 2"] by (simp add: grow_def)

lemma shrink_props:
  "ht_wf t \<Longrightarrow> ht_wf (shrink t) \<and> ht_live (table (shrink t)) = ht_live (table t)
     \<and> elements (shrink t) = elements t \<and> initial_size (shrink t) = initial_size t"
  using resize_props [of t "7 * length (table t) div 10"] by (simp add: shrink_def)


lemma placed_same_key_bucket:
  assumes "ht_wf t" "x \<in># ht_live (table t)" "same_key k h x"
  shows "x \<in> set (live_slots (slots_of (table t ! bucket_index (length (table t)) h)))"
proof -
  from assms(2) obtain j where j: "j < length (table t)"
      "x \<in> set (live_slots (slots_of (table t ! j)))"
    by (auto simp: ht_live_member)
  with assms(1) have "bucket_index (length (table t)) (hhash x) = j"
    by (simp add: ht_wf_def placed_def)
  with assms(3) j(2) show ?thesis by (simp add: same_key_def)
qed

lemma insert_props:
  assumes wf: "ht_wf t"
  shows "ht_wf (HashTable_insert t k h v)
         \<and> ht_live (table (HashTable_insert t k h v))
             = add_mset \<lparr> hkey = k, hhash = h, hvalue = v \<rparr>
                 {#x \<in># ht_live (table t). \<not> same_key k h x#}"
proof -
  define t1 where "t1 = grow t"
  define e where "e = \<lparr> hkey = k, hhash = h, hvalue = v \<rparr>"
  define i where "i = bucket_index (length (table t1)) h"
  define ss where "ss = slots_of (table t1 ! i)"
  let ?F = "{#x \<in># ht_live (table t). \<not> same_key k h x#}"
  from grow_props [OF wf] have wf1: "ht_wf t1" and live1: "ht_live (table t1) = ht_live (table t)"
    by (simp_all add: t1_def)
  from wf1 have n: "0 < length (table t1)" and pl: "placed (table t1)"
    and un: "uniq (ht_live (table t1))" and isz: "0 < initial_size t1"
    by (simp_all add: ht_wf_def)
  have i: "i < length (table t1)" unfolding i_def using n by (rule bucket_index_less)
  have ek: "same_key k h e" "hhash e = h" "hkey e = k" by (simp_all add: e_def same_key_def)
  have old: "\<forall>x \<in> set (live_slots ss). bucket_index (length (table t1)) (hhash x) = i"
    using pl i by (simp add: placed_def ss_def)
  have unF: "uniq (add_mset e ?F)"
  proof (rule uniq_add)
    from un live1 show "uniq ?F" by (simp add: uniq_filter)
    show "\<forall>x\<in>#?F. \<not> same_key (hkey e) (hhash e) x" by (simp add: ek)
  qed
  have step: "ht_wf (t1\<lparr> table := (table t1)[i := Some ss'], elements := el \<rparr>)
              \<and> ht_live ((table t1)[i := Some ss']) = add_mset e ?F"
    if sub: "set (live_slots ss') \<subseteq> insert e (set (live_slots ss))"
      and eq: "ht_live ((table t1)[i := Some ss']) = add_mset e ?F" for ss' el
  proof -
    have "\<forall>x \<in> set (live_slots (slots_of (Some ss'))).
            bucket_index (length (table t1)) (hhash x) = i"
      using sub old ek(2) by (auto simp: i_def)
    from placed_update [OF pl i this] have "placed ((table t1)[i := Some ss'])" .
    with n isz unF eq show ?thesis by (simp add: ht_wf_def)
  qed
  show ?thesis
  proof (cases "replace_slot e ss")
    case None
    define ss' where "ss' = (case fill_slot e ss of Some r \<Rightarrow> r | None \<Rightarrow> ss @ [Some e])"
    have ins: "HashTable_insert t k h v = t1\<lparr> table := (table t1)[i := Some ss'],
                                     elements := elements t1 + 1 \<rparr>"
      using None unfolding HashTable_insert_def ss'_def ss_def i_def e_def t1_def
      by (simp add: Let_def)
    have m: "mset (live_slots ss') = add_mset e (mset (live_slots ss))"
      by (auto simp: ss'_def fill_slot_Some split: option.splits)
    then have sub: "set (live_slots ss') \<subseteq> insert e (set (live_slots ss))"
      by (metis mset_eq_setD set_mset_add_mset_insert set_mset_mset subset_refl)
    from None have nomatch: "\<forall>x \<in> set (live_slots ss). \<not> same_key k h x"
      by (simp add: replace_slot_None ek)
    have "\<forall>x \<in># ht_live (table t1). \<not> same_key k h x"
    proof
      fix x assume x: "x \<in># ht_live (table t1)"
      show "\<not> same_key k h x"
      proof
        assume "same_key k h x"
        from placed_same_key_bucket [OF wf1 x this] nomatch \<open>same_key k h x\<close>
        show False by (simp add: ss_def i_def)
      qed
    qed
    then have F: "?F = ht_live (table t)" using live1 by (simp add: uniq_absent)
    from ht_live_update [OF i, of "Some ss'"] m
    have "ht_live ((table t1)[i := Some ss']) = add_mset e (ht_live (table t1))"
      by (simp add: ss_def [symmetric])
    with F live1 have eq: "ht_live ((table t1)[i := Some ss']) = add_mset e ?F" by simp
    from step [OF sub eq, of "elements t1 + 1"] show ?thesis by (simp add: ins e_def)
  next
    case (Some ss')
    have ins: "HashTable_insert t k h v = t1\<lparr> table := (table t1)[i := Some ss'] \<rparr>"
      using Some unfolding HashTable_insert_def ss_def i_def e_def t1_def
      by (simp add: Let_def)
    from replace_slot_Some [OF Some] ek obtain x where x: "x \<in> set (live_slots ss)"
        "same_key k h x" "add_mset x (mset (live_slots ss')) = add_mset e (mset (live_slots ss))"
      by auto
    from x(3) have "set_mset (add_mset x (mset (live_slots ss')))
                    = set_mset (add_mset e (mset (live_slots ss)))" by simp
    then have sub: "set (live_slots ss') \<subseteq> insert e (set (live_slots ss))" by auto
    from x(1) i have xin: "x \<in># ht_live (table t1)" by (auto simp: ht_live_member ss_def)
    from uniq_split [OF un xin x(2)] live1
    have sp: "ht_live (table t1) = add_mset x ?F" by simp
    from ht_live_update [OF i, of "Some ss'"]
    have "add_mset x (ht_live ((table t1)[i := Some ss']) + mset (live_slots ss))
          = add_mset x (ht_live (table t1) + mset (live_slots ss'))"
      by (simp add: ss_def [symmetric])
    also have "\<dots> = ht_live (table t1) + add_mset e (mset (live_slots ss))"
      using x(3) by (metis union_mset_add_mset_right)
    finally have "add_mset x (ht_live ((table t1)[i := Some ss']))
                  = add_mset e (ht_live (table t1))" by simp
    with sp have eq: "ht_live ((table t1)[i := Some ss']) = add_mset e ?F" by simp
    from step [OF sub eq, of "elements t1"] show ?thesis by (simp add: ins e_def)
  qed
qed

lemma delete_props:
  assumes wf: "ht_wf t"
  shows "ht_wf (snd (HashTable_delete t k h))
         \<and> ht_live (table (snd (HashTable_delete t k h))) = {#x \<in># ht_live (table t). \<not> same_key k h x#}
         \<and> (case fst (HashTable_delete t k h) of
               None \<Rightarrow> \<forall>x \<in># ht_live (table t). \<not> same_key k h x
             | Some d \<Rightarrow> d \<in># ht_live (table t) \<and> same_key k h d)"
proof -
  define i where "i = bucket_index (length (table t))  h"
  define ss where "ss = slots_of (table t ! i)"
  let ?F = "{#x \<in># ht_live (table t). \<not> same_key k h x#}"
  from wf have n: "0 < length (table t)" and pl: "placed (table t)"
    and un: "uniq (ht_live (table t))" and isz: "0 < initial_size t"
    by (simp_all add: ht_wf_def)
  have i: "i < length (table t)" unfolding i_def using n by (rule bucket_index_less)
  show ?thesis
  proof (cases "delete_slot k h ss")
    case None
    have del: "HashTable_delete t k h = (None, t)"
      using None unfolding HashTable_delete_def ss_def i_def
      by (auto simp: Let_def split: option.splits)
    from None have nomatch: "\<forall>x \<in> set (live_slots ss). \<not> same_key k h x"
      by (simp add: delete_slot_None)
    have all: "\<forall>x \<in># ht_live (table t). \<not> same_key k h x"
    proof
      fix x assume x: "x \<in># ht_live (table t)"
      show "\<not> same_key k h x"
      proof
        assume "same_key k h x"
        from placed_same_key_bucket [OF wf x this] nomatch \<open>same_key k h x\<close>
        show False by (simp add: ss_def i_def)
      qed
    qed
    then have "?F = ht_live (table t)" by (simp add: uniq_absent)
    with all wf show ?thesis by (simp add: del)
  next
    case (Some p)
    obtain d ss' where p: "p = (d, ss')" by (cases p)
    define t2 where "t2 = t\<lparr> table := (table t)[i := Some ss'], elements := elements t - 1 \<rparr>"
    from Some p have ds: "delete_slot k h ss = Some (d, ss')" by simp
    have del: "HashTable_delete t k h = (Some d, shrink t2)"
    proof (cases "table t ! i")
      case None
      with ds show ?thesis by (simp add: ss_def)
    next
      case (Some a)
      with ds have "delete_slot k h a = Some (d, ss')" by (simp add: ss_def)
      with Some show ?thesis
        unfolding HashTable_delete_def t2_def i_def by (simp add: Let_def)
    qed
    from delete_slot_Some [OF ds]
    have d: "same_key k h d" "mset (live_slots ss) = add_mset d (mset (live_slots ss'))"
      by simp_all
    from d(2) have "d \<in> set (live_slots ss)"
      by (metis mset_eq_setD set_mset_mset union_single_eq_member)
    with i have din: "d \<in># ht_live (table t)" by (auto simp: ht_live_member ss_def)
    from d(2) have sub: "set (live_slots ss') \<subseteq> set (live_slots ss)"
      by (metis mset_eq_setD set_mset_add_mset_insert set_mset_mset subset_insertI)
    from uniq_split [OF un din d(1)] have sp: "ht_live (table t) = add_mset d ?F" .
    from ht_live_update [OF i, of "Some ss'"] d(2) sp
    have "add_mset d (ht_live (table t2)) = add_mset d ?F"
      by (simp add: ss_def [symmetric] t2_def)
    then have eq: "ht_live (table t2) = ?F" by simp
    have "\<forall>x \<in> set (live_slots (slots_of (Some ss'))).
            bucket_index (length (table t)) (hhash x) = i"
      using sub pl i by (auto simp: placed_def ss_def)
    from placed_update [OF pl i this] have "placed (table t2)" by (simp add: t2_def)
    moreover from un have "uniq ?F" by (rule uniq_filter)
    ultimately have "ht_wf t2" using n isz eq by (simp add: ht_wf_def t2_def)
    from shrink_props [OF this] eq din d(1) show ?thesis by (simp add: del)
  qed
qed

lemma HashTable_init_wf: "ht_wf HashTable_init" "ht_live (table HashTable_init) = {#}"
  by (simp_all add: HashTable_init_def ht_wf_def placed_replicate uniq_def)


lemma option_eq_SomeI: "(\<And>w. a = Some w \<longleftrightarrow> b = Some w) \<Longrightarrow> a = b"
  by (cases a; cases b) auto

lemma lookup_insert:
  assumes wf: "ht_wf t"
  shows "HashTable_lookup (HashTable_insert t k h v) k' h'
         = (if k' = k \<and> h' = h then Some v else HashTable_lookup t k' h')"
proof -
  let ?e = "\<lparr> hkey = k, hhash = h, hvalue = v \<rparr>"
  let ?F = "{#x \<in># ht_live (table t). \<not> same_key k h x#}"
  from insert_props [OF wf, of k h v]
  have wf': "ht_wf (HashTable_insert t k h v)"
    and live: "ht_live (table (HashTable_insert t k h v)) = add_mset ?e ?F" by simp_all
  show ?thesis
  proof (cases "k' = k \<and> h' = h")
    case True
    have "?e \<in># add_mset ?e ?F \<and> same_key k h ?e \<and> hvalue ?e = v"
      by (simp add: same_key_def)
    then have "HashTable_lookup (HashTable_insert t k h v) k h = Some v"
      unfolding lookup_Some_iff [OF wf'] live by blast
    with True show ?thesis by simp
  next
    case False
    have "HashTable_lookup (HashTable_insert t k h v) k' h' = HashTable_lookup t k' h'"
    proof (rule option_eq_SomeI)
      fix w
      have "(\<exists>e. e \<in># add_mset ?e ?F \<and> same_key k' h' e \<and> hvalue e = w)
            \<longleftrightarrow> (\<exists>e. e \<in># ht_live (table t) \<and> same_key k' h' e \<and> hvalue e = w)"
        using False by (auto simp: same_key_def)
      then show "HashTable_lookup (HashTable_insert t k h v) k' h' = Some w
                 \<longleftrightarrow> HashTable_lookup t k' h' = Some w"
        unfolding lookup_Some_iff [OF wf'] lookup_Some_iff [OF wf] live .
    qed
    with False show ?thesis by auto
  qed
qed

lemma lookup_delete:
  assumes wf: "ht_wf t"
  shows "HashTable_lookup (snd (HashTable_delete t k h)) k' h'
         = (if k' = k \<and> h' = h then None else HashTable_lookup t k' h')"
proof (rule option_eq_SomeI)
  fix w
  let ?F = "{#x \<in># ht_live (table t). \<not> same_key k h x#}"
  from delete_props [OF wf, of k h]
  have wf': "ht_wf (snd (HashTable_delete t k h))"
    and live: "ht_live (table (snd (HashTable_delete t k h))) = ?F" by simp_all
  have "(\<exists>e. e \<in># ?F \<and> same_key k' h' e \<and> hvalue e = w)
        \<longleftrightarrow> (\<not> (k' = k \<and> h' = h)
             \<and> (\<exists>e. e \<in># ht_live (table t) \<and> same_key k' h' e \<and> hvalue e = w))"
    by (auto simp: same_key_def)
  then show "HashTable_lookup (snd (HashTable_delete t k h)) k' h' = Some w
        \<longleftrightarrow> (if k' = k \<and> h' = h then None else HashTable_lookup t k' h') = Some w"
    unfolding lookup_Some_iff [OF wf'] live using lookup_Some_iff [OF wf, of k' h' w] by auto
qed

lemma insert_wf: "ht_wf t \<Longrightarrow> ht_wf (HashTable_insert t k h v)"
  using insert_props [of t k h v] by simp

lemma delete_wf: "ht_wf t \<Longrightarrow> ht_wf (snd (HashTable_delete t k h))"
  using delete_props [of t k h] by simp

lemma ht_apply_wf: "ht_wf t \<Longrightarrow> ht_wf (ht_apply t c)"
  by (cases c) (simp_all add: insert_wf delete_wf)

lemma foldl_ht_apply_wf: "ht_wf t \<Longrightarrow> ht_wf (foldl ht_apply t cs)"
  by (induction cs arbitrary: t) (simp_all add: ht_apply_wf)

lemma ht_calls_wf: "ht_wf (ht_calls cs)"
  by (simp add: ht_calls_def foldl_ht_apply_wf HashTable_init_wf)

lemma ht_calls_snoc: "ht_calls (cs @ [c]) = ht_apply (ht_calls cs) c"
  by (simp add: ht_calls_def)

lemma lookup_ht_calls_snoc:
  "HashTable_lookup (ht_calls (cs @ [c])) k h =
     (case c of
        Insert k' h' v \<Rightarrow> if k = k' \<and> h = h' then Some v else HashTable_lookup (ht_calls cs) k h
      | Delete k' h' \<Rightarrow> if k = k' \<and> h = h' then None else HashTable_lookup (ht_calls cs) k h
      | Lookup k' h' \<Rightarrow> HashTable_lookup (ht_calls cs) k h)"
  by (cases c) (simp_all add: ht_calls_snoc lookup_insert lookup_delete ht_calls_wf)

lemma lookup_init: "HashTable_lookup HashTable_init k h = None"
proof -
  have "bucket_index 32 h < 32" by (simp add: bucket_index_less)
  then show ?thesis by (simp add: HashTable_lookup_def HashTable_init_def)
qed

lemma lookup_never_inserted:
  "(\<forall>w. Insert k h w \<notin> set cs) \<Longrightarrow> HashTable_lookup (ht_calls cs) k h = None"
proof (induction cs rule: rev_induct)
  case Nil
  then show ?case by (simp add: ht_calls_def lookup_init)
next
  case (snoc c cs)
  then show ?case by (cases c) (auto simp: lookup_ht_calls_snoc)
qed

lemma lookup_after_insert:
  "(\<forall>w. Insert k h w \<notin> set after) \<Longrightarrow>
   HashTable_lookup (ht_calls (before @ Insert k h v # after)) k h
     = (if Delete k h \<in> set after then None else Some v)"
proof (induction after rule: rev_induct)
  case Nil
  have "before @ [Insert k h v] = before @ [Insert k h v]" ..
  show ?case using lookup_ht_calls_snoc [of before "Insert k h v" k h] by simp
next
  case (snoc c cs)
  have "before @ Insert k h v # cs @ [c] = (before @ Insert k h v # cs) @ [c]" by simp
  with snoc show ?case
    using lookup_ht_calls_snoc [of "before @ Insert k h v # cs" c k h]
    by (cases c) (auto split: if_splits)
qed

section \<open>The sort returns a permutation of its input, or raises what the comparison raises\<close>

lemma run_len_raises: "run_len lt d prev xs = Inl e \<Longrightarrow> \<exists>x y. lt x y = Inl e"
  by (induction xs arbitrary: prev) (auto split: sum.splits if_splits)

lemma count_run_raises: "count_run lt xs = Inl e \<Longrightarrow> \<exists>x y. lt x y = Inl e"
  by (induction lt xs rule: count_run.induct) (auto split: sum.splits dest: run_len_raises)

lemma bisect_raises: "bisect lt pivot xs l r = Inl e \<Longrightarrow> \<exists>x y. lt x y = Inl e"
proof (induction lt pivot xs l r rule: bisect.induct)
  case (1 lt pivot xs l r)
  show ?case
  proof (cases "l < r")
    case False
    with "1.prems" show ?thesis by (subst (asm) bisect.simps) simp
  next
    case True
    define p where "p = l + (r - l) div 2"
    show ?thesis
    proof (cases "lt pivot (xs ! p)")
      case (Inl e')
      with "1.prems" True have "e' = e"
        by (subst (asm) bisect.simps) (simp add: p_def Let_def)
      with Inl show ?thesis by blast
    next
      case (Inr b)
      with "1.prems" True have
        "(b \<longrightarrow> bisect lt pivot xs l p = Inl e)
         \<and> (\<not> b \<longrightarrow> bisect lt pivot xs (p + 1) r = Inl e)"
        by (subst (asm) bisect.simps) (auto simp: p_def Let_def split: if_splits)
      with "1.IH"(1) [OF True p_def Inr] "1.IH"(2) [OF True p_def Inr]
      show ?thesis by (cases b) auto
    qed
  qed
qed

lemma binarysort_raises: "binarysort lt pre rest = Inl e \<Longrightarrow> \<exists>x y. lt x y = Inl e"
  by (induction rest arbitrary: pre) (auto split: sum.splits dest: bisect_raises)

lemma mset_binarysort: "binarysort lt pre rest = Inr out \<Longrightarrow> mset out = mset pre + mset rest"
proof (induction rest arbitrary: pre)
  case Nil
  then show ?case by simp
next
  case (Cons pivot rest)
  from Cons.prems obtain l where
    r: "binarysort lt (take l pre @ pivot # drop l pre) rest = Inr out"
    by (auto split: sum.splits)
  have "mset (take l pre @ pivot # drop l pre) = add_mset pivot (mset pre)"
    by (metis append_take_drop_id mset.simps(2) mset_append union_mset_add_mset_right)
  with Cons.IH [OF r] show ?case by simp
qed

lemma listsort_raises: "listsort lt xs = Inl e \<Longrightarrow> \<exists>x y. lt x y = Inl e"
  by (auto simp: listsort_def split: if_splits sum.splits prod.splits
      dest: count_run_raises binarysort_raises)

lemma mset_listsort: "listsort lt xs = Inr out \<Longrightarrow> mset out = mset xs"
proof (cases "length xs < 2")
  case True
  assume "listsort lt xs = Inr out"
  with True show ?thesis by (simp add: listsort_def)
next
  case False
  assume a: "listsort lt xs = Inr out"
  with False obtain n d where
    b: "binarysort lt (if d then rev (take n xs) else take n xs) (drop n xs) = Inr out"
    by (auto simp: listsort_def split: sum.splits)
  have "mset (take n xs) + mset (drop n xs) = mset xs"
    by (metis append_take_drop_id mset_append)
  with mset_binarysort [OF b] show ?thesis by (cases d) simp_all
qed

lemma mset_py_sorted: "py_sorted cmp xs = Inr out \<Longrightarrow> mset out = mset xs"
  by (simp add: py_sorted_def mset_listsort)

lemma py_sorted_raises:
  assumes "py_sorted cmp xs = Inl e"
  shows "\<exists>x y. cmp x y = Inl e"
proof -
  from assms obtain x y where
    "(case cmp x y of Inl e \<Rightarrow> Inl e | Inr c \<Rightarrow> Inr (c < 0)) = (Inl e :: py_error + bool)"
    unfolding py_sorted_def by (blast dest: listsort_raises)
  then have "cmp x y = Inl e" by (cases "cmp x y") simp_all
  then show ?thesis by blast
qed

lemma py_float_raises: "py_float n = Inl e \<Longrightarrow> e = OverflowError"
  by (auto simp: py_float_def Let_def split: if_splits)

lemma compare_raises: "compare e1 e2 now = Inl e \<Longrightarrow> e = OverflowError"
  by (auto simp: compare_def Let_def split: if_splits sum.splits dest: py_float_raises)

lemma mset_prioritize_samples:
  "prioritize_samples c samples aux = Inr out \<Longrightarrow> mset out = mset samples"
  by (cases c) (auto simp: prioritize_samples_def mset_py_sorted split: if_splits)

lemma prioritize_samples_raises:
  "prioritize_samples c samples [t] = Inl e \<Longrightarrow> e = OverflowError"
  by (cases c) (auto simp: prioritize_samples_def dest!: py_sorted_raises dest: compare_raises)

text \<open>
  The quotients are rounded as doubles: these two entries have the hit densities
  \<open>1793133 / 3564263620\<close> and \<open>2454110 / 4878107197\<close>, different rationals with the same
  nearest double, and \<^verbatim>\<open>compare\<close> returns 0.
\<close>

lemma compare_rounds:
  "compare \<lparr> hkey = ''b1'', hhash = 1, hvalue = CacheEntry_init 3564263620 0 0 0 0 0 1793133 \<rparr>
           \<lparr> hkey = ''b2'', hhash = 2, hvalue = CacheEntry_init 4878107197 0 0 0 0 0 2454110 \<rparr>
           1000000 = Inr 0"
  by code_simp

section \<open>The access loop returns when the subclass keeps an invariant\<close>

text \<open>
  If \<^verbatim>\<open>_access_kv\<close> of a subclass, from every state that satisfies an invariant, either
  returns normally, re-establishing the invariant and leaving the map of gets alone, or
  raises one of the exceptions in \<open>E\<close>, then so do \<^verbatim>\<open>_access_row\<close>, \<^verbatim>\<open>access\<close> and the whole
  loop over a trace: no dictionary read of the row path can miss, and no assertion of
  the base class can fail. With \<open>E\<close> empty the calls always return.
\<close>

lemma update_stats_map [simp]:
  "get_id_row_key_map (update_stats c t hit) = get_id_row_key_map c"
  by (simp add: update_stats_def)

lemma access_row_safe:
  fixes Inv :: "'a Cache_scheme \<Rightarrow> bool" and E :: "py_error set"
  assumes kv: "\<And>c r k h v ni. Inv c \<Longrightarrow>
              (\<exists>hit c'. access_kv M c r k h v ni = Inr (hit, c') \<and> Inv c'
                 \<and> get_id_row_key_map c' = get_id_row_key_map c)
              \<or> (\<exists>e \<in> E. access_kv M c r k h v ni = Inl e)"
    and st: "\<And>c s1 s2. Inv c \<Longrightarrow>
              Inv (c\<lparr> miss_ratio_stats := s1, per_hour_miss_ratio_stats := s2 \<rparr>)"
    and mp: "\<And>c m. Inv c \<Longrightarrow> Inv (c\<lparr> get_id_row_key_map := m \<rparr>)"
    and inv: "Inv c"
  shows "(\<exists>c'. access_row M c r = Inr c' \<and> Inv c') \<or> (\<exists>e \<in> E. access_row M c r = Inl e)"
proof -
  define g where "g = get_id r"
  define c0 where "c0 = (if g \<notin> dom (get_id_row_key_map c)
                then c\<lparr> get_id_row_key_map := (get_id_row_key_map c)(g \<mapsto> (False, Map.empty)) \<rparr>
                else c)"
  have inv0: "Inv c0" using inv mp by (simp add: c0_def)
  have us: "Inv (update_stats c' t b)" if "Inv c'" for c' t b
    using st [OF that] by (simp add: update_stats_def)
  obtain served0 keys0 where m0: "get_id_row_key_map c0 g = Some (served0, keys0)"
    by (cases "get_id_row_key_map c0 g") (auto simp: c0_def split: if_splits)
  define first where "first =
     (if key_id r \<notin> dom keys0
      then (case access_kv M c0 r (row_key r) (key_id r) (kv_size r) False of
              Inl e \<Rightarrow> Inl e
            | Inr (hit, c1) \<Rightarrow>
                (case get_id_row_key_map c1 g of
                   None \<Rightarrow> Inl KeyError
                 | Some (served1, keys1) \<Rightarrow>
                     Inr (c1\<lparr> get_id_row_key_map := (get_id_row_key_map c1)
                                (g \<mapsto> (hit, keys1(key_id r \<mapsto> kv_size r > 0))) \<rparr>)))
      else Inr c0)"
  have unfold0: "access_row M c r =
     (if served0 then Inr (update_stats c0 (access_time r) True)
      else
        (case first of
           Inl e \<Rightarrow> Inl e
         | Inr c2 \<Rightarrow>
             (case get_id_row_key_map c2 g of
                None \<Rightarrow> Inl KeyError
              | Some (served2, keys2) \<Rightarrow>
                  if served2 then Inr (update_stats c2 (access_time r) True)
                  else
                    (case access_kv M c2 r (block_key r) (block_id r) (block_size r)
                            (no_insert r) of
                       Inl e \<Rightarrow> Inl e
                     | Inr (hit, c3) \<Rightarrow>
                         (let c4 = update_stats c3 (access_time r) hit
                          in if kv_size r > 0
                             then (case get_id_row_key_map c4 g of
                                     None \<Rightarrow> Inl KeyError
                                   | Some (served4, keys4) \<Rightarrow>
                                       (case keys4 (key_id r) of
                                          None \<Rightarrow> Inl KeyError
                                        | Some inserted \<Rightarrow>
                                            if \<not> inserted
                                            then (case access_kv M c4 r (row_key r) (key_id r)
                                                          (kv_size r) False of
                                                    Inl e \<Rightarrow> Inl e
                                                  | Inr (hit5, c5) \<Rightarrow>
                                                      (case get_id_row_key_map c5 g of
                                                         None \<Rightarrow> Inl KeyError
                                                       | Some (served5, keys5) \<Rightarrow>
                                                           Inr (c5\<lparr> get_id_row_key_map :=
                                                             (get_id_row_key_map c5)
                                                               (g \<mapsto> (served5, keys5(key_id r \<mapsto> True))) \<rparr>)))
                                            else Inr c4))
                             else Inr c4)))))"
    unfolding access_row_def Let_def g_def [symmetric] c0_def [symmetric] first_def
    by (simp add: m0)
  show ?thesis
  proof (cases served0)
    case True
    with unfold0 us [OF inv0] show ?thesis by simp
  next
    case False
    \<comment> \<open>the first row access, when the key is new\<close>
    have "(\<exists>c2 served2 keys2. first = Inr c2 \<and> Inv c2
            \<and> get_id_row_key_map c2 g = Some (served2, keys2) \<and> key_id r \<in> dom keys2)
          \<or> (\<exists>e \<in> E. first = Inl e)"
    proof (cases "key_id r \<in> dom keys0")
      case True
      with inv0 m0 show ?thesis by (auto simp: first_def)
    next
      case F: False
      from kv [OF inv0, of r "row_key r" "key_id r" "kv_size r" False]
      show ?thesis
      proof (elim disjE exE conjE bexE)
        fix hit c1
        assume a: "access_kv M c0 r (row_key r) (key_id r) (kv_size r) False = Inr (hit, c1)"
          "Inv c1" "get_id_row_key_map c1 = get_id_row_key_map c0"
        with F m0 mp [OF a(2)] show ?thesis by (simp add: first_def)
      next
        fix e
        assume "e \<in> E" "access_kv M c0 r (row_key r) (key_id r) (kv_size r) False = Inl e"
        with F show ?thesis by (auto simp: first_def)
      qed
    qed
    then show ?thesis
    proof (elim disjE exE conjE bexE)
      fix e assume "e \<in> E" "first = Inl e"
      with unfold0 False show ?thesis by auto
    next
      fix c2 served2 keys2
      assume s1: "first = Inr c2" and inv2: "Inv c2"
        and m2: "get_id_row_key_map c2 g = Some (served2, keys2)"
        and k2: "key_id r \<in> dom keys2"
      show ?thesis
      proof (cases served2)
        case True
        with unfold0 False s1 m2 us [OF inv2] show ?thesis by simp
      next
        case F2: False
        from kv [OF inv2, of r "block_key r" "block_id r" "block_size r" "no_insert r"]
        show ?thesis
        proof (elim disjE exE conjE bexE)
          fix e
          assume "e \<in> E"
            "access_kv M c2 r (block_key r) (block_id r) (block_size r) (no_insert r) = Inl e"
          with unfold0 False s1 m2 F2 show ?thesis by auto
        next
          fix hit c3
          assume b: "access_kv M c2 r (block_key r) (block_id r) (block_size r) (no_insert r)
                       = Inr (hit, c3)"
            "Inv c3" "get_id_row_key_map c3 = get_id_row_key_map c2"
          define c4 where "c4 = update_stats c3 (access_time r) hit"
          have inv4: "Inv c4" using us [OF b(2)] by (simp add: c4_def)
          have m4: "get_id_row_key_map c4 g = Some (served2, keys2)"
            using b(3) m2 by (simp add: c4_def)
          from k2 obtain inserted where ins: "keys2 (key_id r) = Some inserted" by auto
          have tail: "access_row M c r =
              (if kv_size r > 0 \<and> \<not> inserted
               then (case access_kv M c4 r (row_key r) (key_id r) (kv_size r) False of
                       Inl e \<Rightarrow> Inl e
                     | Inr (hit5, c5) \<Rightarrow>
                         (case get_id_row_key_map c5 g of
                            None \<Rightarrow> Inl KeyError
                          | Some (served5, keys5) \<Rightarrow>
                              Inr (c5\<lparr> get_id_row_key_map :=
                                (get_id_row_key_map c5)
                                  (g \<mapsto> (served5, keys5(key_id r \<mapsto> True))) \<rparr>)))
               else Inr c4)"
            using False F2 s1 m2 b(1) m4 ins
            by (simp add: unfold0 Let_def c4_def [symmetric])
          show ?thesis
          proof (cases "kv_size r > 0 \<and> \<not> inserted")
            case False
            with tail inv4 show ?thesis by auto
          next
            case True
            from kv [OF inv4, of r "row_key r" "key_id r" "kv_size r" False]
            show ?thesis
            proof (elim disjE exE conjE bexE)
              fix e
              assume "e \<in> E" "access_kv M c4 r (row_key r) (key_id r) (kv_size r) False = Inl e"
              with tail True show ?thesis by auto
            next
              fix hit5 c5
              assume e: "access_kv M c4 r (row_key r) (key_id r) (kv_size r) False = Inr (hit5, c5)"
                "Inv c5" "get_id_row_key_map c5 = get_id_row_key_map c4"
              with True tail m4 mp [OF e(2)] show ?thesis by simp
            qed
          qed
        qed
      qed
    qed
  qed
qed

lemma access_safe:
  fixes Inv :: "'a Cache_scheme \<Rightarrow> bool" and E :: "py_error set"
  assumes kv: "\<And>c r k h v ni. Inv c \<Longrightarrow>
              (\<exists>hit c'. access_kv M c r k h v ni = Inr (hit, c') \<and> Inv c'
                 \<and> get_id_row_key_map c' = get_id_row_key_map c)
              \<or> (\<exists>e \<in> E. access_kv M c r k h v ni = Inl e)"
    and st: "\<And>c s1 s2. Inv c \<Longrightarrow>
              Inv (c\<lparr> miss_ratio_stats := s1, per_hour_miss_ratio_stats := s2 \<rparr>)"
    and mp: "\<And>c m. Inv c \<Longrightarrow> Inv (c\<lparr> get_id_row_key_map := m \<rparr>)"
    and le: "\<And>c. Inv c \<Longrightarrow> used_size c \<le> cache_size c"
    and inv: "Inv c"
  shows "(\<exists>c'. access M c r = Inr c' \<and> Inv c') \<or> (\<exists>e \<in> E. access M c r = Inl e)"
proof (cases "enable_cache_row_key c \<and> caller r = 1 \<and> key_id r \<noteq> 0 \<and> get_id r \<noteq> 0")
  case True
  with access_row_safe [where Inv = Inv and M = M and E = E and c = c and r = r,
      OF kv st mp inv] le [OF inv]
  show ?thesis by (simp add: access_def)
next
  case False
  from kv [OF inv, of r "block_key r" "block_id r" "block_size r" "no_insert r"]
  show ?thesis
  proof (elim disjE exE conjE bexE)
    fix e
    assume "e \<in> E"
      "access_kv M c r (block_key r) (block_id r) (block_size r) (no_insert r) = Inl e"
    with False le [OF inv] show ?thesis by (auto simp: access_def)
  next
    fix hit c1
    assume b: "access_kv M c r (block_key r) (block_id r) (block_size r) (no_insert r)
                 = Inr (hit, c1)" "Inv c1"
    from st [OF b(2)] have "Inv (update_stats c1 (access_time r) hit)"
      by (simp add: update_stats_def)
    with False b le [OF inv] show ?thesis by (auto simp: access_def)
  qed
qed

lemma accesses_safe:
  fixes Inv :: "'a Cache_scheme \<Rightarrow> bool" and E :: "py_error set"
  assumes kv: "\<And>c r k h v ni. Inv c \<Longrightarrow>
              (\<exists>hit c'. access_kv M c r k h v ni = Inr (hit, c') \<and> Inv c'
                 \<and> get_id_row_key_map c' = get_id_row_key_map c)
              \<or> (\<exists>e \<in> E. access_kv M c r k h v ni = Inl e)"
    and st: "\<And>c s1 s2. Inv c \<Longrightarrow>
              Inv (c\<lparr> miss_ratio_stats := s1, per_hour_miss_ratio_stats := s2 \<rparr>)"
    and mp: "\<And>c m. Inv c \<Longrightarrow> Inv (c\<lparr> get_id_row_key_map := m \<rparr>)"
    and le: "\<And>c. Inv c \<Longrightarrow> used_size c \<le> cache_size c"
  shows "Inv c \<Longrightarrow>
         (\<exists>c'. accesses M c rs = Inr c' \<and> Inv c') \<or> (\<exists>e \<in> E. accesses M c rs = Inl e)"
proof (induction rs arbitrary: c)
  case Nil
  then show ?case by simp
next
  case (Cons r rs)
  from access_safe [where Inv = Inv and M = M and E = E and c = c and r = r,
      OF kv st mp le Cons.prems]
  have "(\<exists>c'. access M c r = Inr c' \<and> Inv c') \<or> (\<exists>e \<in> E. access M c r = Inl e)"
    by blast
  then show ?case
  proof (elim disjE exE conjE bexE)
    fix e assume "e \<in> E" "access M c r = Inl e"
    then show ?thesis by auto
  next
    fix c1 assume a: "access M c r = Inr c1" "Inv c1"
    with Cons.IH [OF a(2)] show ?thesis by simp
  qed
qed

lemma accesses_total:
  fixes Inv :: "'a Cache_scheme \<Rightarrow> bool"
  assumes kv: "\<And>c r k h v ni. Inv c \<Longrightarrow>
              \<exists>hit c'. access_kv M c r k h v ni = Inr (hit, c') \<and> Inv c'
                 \<and> get_id_row_key_map c' = get_id_row_key_map c"
    and st: "\<And>c s1 s2. Inv c \<Longrightarrow>
              Inv (c\<lparr> miss_ratio_stats := s1, per_hour_miss_ratio_stats := s2 \<rparr>)"
    and mp: "\<And>c m. Inv c \<Longrightarrow> Inv (c\<lparr> get_id_row_key_map := m \<rparr>)"
    and le: "\<And>c. Inv c \<Longrightarrow> used_size c \<le> cache_size c"
    and inv: "Inv c"
  shows "\<exists>c'. accesses M c rs = Inr c' \<and> Inv c'"
proof -
  have "(\<exists>c'. accesses M c rs = Inr c' \<and> Inv c') \<or> (\<exists>e \<in> {}. accesses M c rs = Inl e)"
    by (rule accesses_safe [where Inv = Inv and M = M and E = "{}", OF _ st mp le inv])
       (use kv in blast)
  then show ?thesis by simp
qed

section \<open>The sampling caches: the table holds exactly what \<open>used_size\<close> counts\<close>

text \<open>
  \<open>table_inv\<close>: the hash table is well formed, \<open>used_size\<close> is the sum of the sizes of its
  live entries, and every size is positive. \<open>ml_inv\<close> adds \<open>used_size \<le> cache_size\<close>, a
  non-empty policy list whose indices the statistics know, and an invariant \<open>I\<close> of the
  subclass fields that \<^verbatim>\<open>_select_policy\<close> needs and keeps (\<open>sel_ok\<close>). The one exception
  a call can raise from such a state is the \<^verbatim>\<open>OverflowError\<close> of a conversion to float.
\<close>

lemma sample_slots_take:
  "length acc < n \<Longrightarrow> sample_slots n ss acc = take n (acc @ live_slots ss)"
proof (induction n ss acc rule: sample_slots.induct)
  case (1 n samples)
  then show ?case by simp
next
  case (2 n ss samples)
  then show ?case by simp
next
  case (3 n e ss samples)
  show ?case
  proof (cases "Suc (length samples) = n")
    case True
    then have "n - length samples = Suc 0" by simp
    with True show ?thesis by simp
  next
    case False
    with "3.prems" have "length (samples @ [e]) < n" by simp
    with "3.IH" False show ?thesis by simp
  qed
qed

lemma sample_walk_take:
  "length acc < n \<Longrightarrow> sample_walk n bs acc = take n (acc @ live_entries bs)"
proof (induction bs arbitrary: acc)
  case Nil
  then show ?case by (simp add: live_entries_def)
next
  case (Cons b bs)
  define acc' where "acc' = take n (acc @ live_slots (slots_of b))"
  have s: "(case b of None \<Rightarrow> acc | Some ss \<Rightarrow> sample_slots n ss acc) = acc'"
    using Cons.prems by (cases b) (simp_all add: acc'_def sample_slots_take)
  have le: "live_entries (b # bs) = live_slots (slots_of b) @ live_entries bs"
    by (simp add: live_entries_def)
  show ?case
  proof (cases "length acc' = n")
    case True
    then have "n \<le> length (acc @ live_slots (slots_of b))" by (simp add: acc'_def)
    then have "take n (acc @ live_entries (b # bs)) = acc'"
      unfolding le acc'_def by (simp flip: append_assoc)
    with True s show ?thesis by (simp add: Let_def)
  next
    case False
    then have lt: "length acc' < n" by (simp add: acc'_def)
    then have a: "acc' = acc @ live_slots (slots_of b)" by (simp add: acc'_def)
    from Cons.IH [OF lt] False s show ?thesis by (simp add: Let_def a le)
  qed
qed

lemma random_sample_take:
  "0 < n \<Longrightarrow> random_sample t i n = Inr (take n (live_entries (rotate i (table t))))"
  by (simp add: random_sample_def sample_walk_take Let_def)

lemma mset_rotate_eq: "mset (rotate i xs) = mset xs"
proof -
  have "mset (drop k xs @ take k xs) = mset (take k xs @ drop k xs)" for k
    by (simp only: mset_append add.commute)
  then show ?thesis by (simp add: rotate_drop_take)
qed

lemma mset_live_entries_rotate: "mset (live_entries (rotate i tbl)) = ht_live tbl"
proof -
  have "mset (live_entries xs) = (\<Sum>b\<in>#mset xs. mset (live_slots (slots_of b)))" for xs :: "'a bucket option list"
    by (induction xs) (simp_all add: live_entries_def)
  then show ?thesis by (simp add: ht_live_def mset_rotate_eq)
qed

lemma random_sample_props:
  assumes "0 < n"
  shows "\<exists>samples. random_sample t i n = Inr samples \<and> mset samples \<subseteq># ht_live (table t)
           \<and> (samples = [] \<longrightarrow> ht_live (table t) = {#})"
proof -
  let ?L = "live_entries (rotate i (table t))"
  have "mset (take n ?L) \<subseteq># mset ?L" by (metis append_take_drop_id mset_subset_eq_add_left mset_append)
  moreover have "take n ?L = [] \<longrightarrow> mset ?L = {#}" using assms by auto
  ultimately show ?thesis
    using random_sample_take [OF assms, of t i] by (simp add: mset_live_entries_rotate)
qed


definition sum_sizes :: "CacheEntry HashEntry multiset \<Rightarrow> int" where
  "sum_sizes M = (\<Sum>e\<in>#M. value_size (hvalue e))"

definition ml_live :: "'x MLCache \<Rightarrow> CacheEntry HashEntry multiset" where
  "ml_live c = ht_live (table (ml_table c))"

definition table_inv :: "'x MLCache \<Rightarrow> bool" where
  "table_inv c \<longleftrightarrow>
     ht_wf (ml_table c) \<and> used_size c = sum_sizes (ml_live c)
     \<and> (\<forall>e \<in># ml_live c. 0 < value_size (hvalue e))"

definition base_frame :: "'a Cache_scheme \<Rightarrow> 'a Cache_scheme \<Rightarrow> bool" where
  "base_frame c c' \<longleftrightarrow>
     cache_size c' = cache_size c \<and> length (policies c') = length (policies c)
     \<and> policy_names (policy_stats c') = policy_names (policy_stats c)
     \<and> policy_names (per_hour_policy_stats c') = policy_names (per_hour_policy_stats c)
     \<and> get_id_row_key_map c' = get_id_row_key_map c
     \<and> enable_cache_row_key c' = enable_cache_row_key c"

lemma base_frame_refl [simp]: "base_frame c c"
  by (simp add: base_frame_def)

lemma base_frame_trans: "base_frame c c1 \<Longrightarrow> base_frame c1 c2 \<Longrightarrow> base_frame c c2"
  by (simp add: base_frame_def)

lemma sum_sizes_simps [simp]:
  "sum_sizes {#} = 0" "sum_sizes (add_mset e M) = value_size (hvalue e) + sum_sizes M"
  by (simp_all add: sum_sizes_def)

lemma sum_sizes_pos: "\<forall>e \<in># M. 0 < value_size (hvalue e) \<Longrightarrow> M \<noteq> {#} \<Longrightarrow> 0 < sum_sizes M"
proof (induction M)
  case empty
  then show ?case by simp
next
  case (add x M)
  then show ?case by (cases "M = {#}") (auto simp: add_pos_pos)
qed

lemma delete_live_entry:
  assumes wf: "ht_wf t" and e: "e \<in># ht_live (table t)"
  shows "\<exists>t'. HashTable_delete t (hkey e) (hhash e) = (Some e, t') \<and> ht_wf t'
              \<and> ht_live (table t) = add_mset e (ht_live (table t'))"
proof -
  obtain r t' where d: "HashTable_delete t (hkey e) (hhash e) = (r, t')"
    by (cases "HashTable_delete t (hkey e) (hhash e)")
  have sk: "same_key (hkey e) (hhash e) e" by (simp add: same_key_def)
  from wf have un: "uniq (ht_live (table t))" by (simp add: ht_wf_def)
  from delete_props [OF wf, of "hkey e" "hhash e"] d
  have wf': "ht_wf t'"
    and live: "ht_live (table t') = {#x \<in># ht_live (table t). \<not> same_key (hkey e) (hhash e) x#}"
    and res: "case r of None \<Rightarrow> \<forall>x \<in># ht_live (table t). \<not> same_key (hkey e) (hhash e) x
              | Some d \<Rightarrow> d \<in># ht_live (table t) \<and> same_key (hkey e) (hhash e) d"
    by simp_all
  from res e sk obtain d' where r: "r = Some d'" "d' \<in># ht_live (table t)"
      "same_key (hkey e) (hhash e) d'"
    by (cases r) auto
  from uniq_eq [OF un r(2) e r(3) sk] have "d' = e" .
  moreover from uniq_split [OF un e sk] live
  have "ht_live (table t) = add_mset e (ht_live (table t'))" by simp
  ultimately show ?thesis using d r(1) wf' by simp
qed

lemma evict_samples_props:
  "table_inv c \<Longrightarrow> mset es \<subseteq># ml_live c \<Longrightarrow>
   \<exists>c'. evict_samples c pidx v es = Inr c' \<and> table_inv c' \<and> base_frame c c'
        \<and> ml_live c' \<subseteq># ml_live c
        \<and> (es \<noteq> [] \<longrightarrow> size (ml_live c') < size (ml_live c))
        \<and> sub c' = sub c \<and> rng c' = rng c \<and> rng_pos c' = rng_pos c"
proof (induction es arbitrary: c)
  case Nil
  then show ?case by simp
next
  case (Cons e es)
  from Cons.prems have wf: "ht_wf (ml_table c)"
    and used: "used_size c = sum_sizes (ml_live c)"
    and pos: "\<forall>e \<in># ml_live c. 0 < value_size (hvalue e)"
    by (simp_all add: table_inv_def)
  from Cons.prems(2) have ein: "e \<in># ht_live (table (ml_table c))"
    by (simp add: ml_live_def insert_subset_eq_iff)
  from delete_live_entry [OF wf ein] obtain t' where
    d: "HashTable_delete (ml_table c) (hkey e) (hhash e) = (Some e, t')" and wf': "ht_wf t'"
    and live: "ml_live c = add_mset e (ht_live (table t'))"
    by (auto simp: ml_live_def)
  define c1 where "c1 = c\<lparr> ml_table := t',
                       used_size := used_size c - value_size (hvalue e),
                       policies := (policies c)
                         [pidx := Policy_evict (policies c ! pidx) (hkey e) (elements t')] \<rparr>"
  have l1: "ml_live c1 = ht_live (table t')" by (simp add: c1_def ml_live_def)
  have inv1: "table_inv c1"
    using wf' used pos live by (simp add: table_inv_def l1) (simp add: c1_def)
  have fr1: "base_frame c c1" by (simp add: base_frame_def c1_def)
  have sub1: "sub c1 = sub c" "rng c1 = rng c" "rng_pos c1 = rng_pos c" by (simp_all add: c1_def)
  have sz: "size (ml_live c1) < size (ml_live c)" "ml_live c1 \<subseteq># ml_live c"
    by (simp_all add: l1 live)
  have step: "evict_samples c pidx v (e # es) =
                (if used_size c1 + v \<le> cache_size c1 then Inr c1 else evict_samples c1 pidx v es)"
    by (simp add: d c1_def Let_def)
  show ?case
  proof (cases "used_size c1 + v \<le> cache_size c1")
    case True
    with step inv1 fr1 sub1 sz show ?thesis by simp
  next
    case False
    from Cons.prems(2) live have "mset es \<subseteq># ml_live c1" by (simp add: l1)
    from Cons.IH [OF inv1 this] obtain c' where
      c': "evict_samples c1 pidx v es = Inr c'" "table_inv c'" "base_frame c1 c'"
        "ml_live c' \<subseteq># ml_live c1" "sub c' = sub c1" "rng c' = rng c1" "rng_pos c' = rng_pos c1"
      by blast
    from c'(4) have "size (ml_live c') \<le> size (ml_live c1)" by (rule size_mset_mono)
    with sz c'(4) have "size (ml_live c') < size (ml_live c)" "ml_live c' \<subseteq># ml_live c"
      by (auto intro: subset_mset.order_trans)
    with step False c' fr1 sub1 show ?thesis
      by (auto intro: base_frame_trans)
  qed
qed


lemma table_inv_rng_pos [simp]: "table_inv (c\<lparr> rng_pos := n \<rparr>) = table_inv c"
  by (simp add: table_inv_def ml_live_def)

lemma ml_live_rng_pos [simp]: "ml_live (c\<lparr> rng_pos := n \<rparr>) = ml_live c"
  by (simp add: ml_live_def)

lemma prioritize_samples_total:
  "(\<exists>out. prioritize_samples c samples [t] = Inr out \<and> mset out = mset samples)
   \<or> prioritize_samples c samples [t] = Inl OverflowError"
  by (cases "prioritize_samples c samples [t]")
     (auto dest: prioritize_samples_raises mset_prioritize_samples)

lemma evict_loop_total:
  "table_inv c \<Longrightarrow> v \<le> cache_size c \<Longrightarrow>
   (\<exists>c'. evict_loop c pidx r v = Some (Inr c') \<and> table_inv c' \<and> base_frame c c'
        \<and> used_size c' + v \<le> cache_size c' \<and> ml_live c' \<subseteq># ml_live c
        \<and> sub c' = sub c \<and> rng c' = rng c)
   \<or> evict_loop c pidx r v = Some (Inl OverflowError)"
proof (induction "size (ml_live c)" arbitrary: c rule: less_induct)
  case less
  show ?case
  proof (cases "used_size c + v > cache_size c")
    case False
    with less.prems show ?thesis by (subst (1 2) evict_loop.simps) simp
  next
    case True
    from less.prems(1) have used: "used_size c = sum_sizes (ml_live c)"
      and pos: "\<forall>e \<in># ml_live c. 0 < value_size (hvalue e)"
      by (simp_all add: table_inv_def)
    from True less.prems(2) used have "ml_live c \<noteq> {#}" by auto
    with random_sample_props [of kSampleSize "ml_table c"
        "rng c (rng_pos c) mod length (table (ml_table c))"]
    obtain samples where
      rs: "random_sample (ml_table c) (rng c (rng_pos c) mod length (table (ml_table c)))
             kSampleSize = Inr samples"
      and sub: "mset samples \<subseteq># ml_live c" and ne: "samples \<noteq> []"
      by (auto simp: kSampleSize_def ml_live_def)
    from prioritize_samples_total [of "kind (policies c ! pidx)" samples "access_time r"]
    show ?thesis
    proof (elim disjE exE conjE)
      assume "prioritize_samples (kind (policies c ! pidx)) samples [access_time r]
                = Inl OverflowError"
      with True rs have "evict_loop c pidx r v = Some (Inl OverflowError)"
        by (subst evict_loop.simps) simp
      then show ?thesis by simp
    next
      fix samples'
      assume ps: "prioritize_samples (kind (policies c ! pidx)) samples [access_time r]
                    = Inr samples'"
        and ms: "mset samples' = mset samples"
      from ms ne have ne': "samples' \<noteq> []" by auto
      from evict_samples_props [of "c\<lparr> rng_pos := rng_pos c + 1 \<rparr>" samples' pidx v]
        less.prems(1) sub ms ne'
      obtain c1 where
        es: "evict_samples (c\<lparr> rng_pos := rng_pos c + 1 \<rparr>) pidx v samples' = Inr c1"
        and inv1: "table_inv c1" and fr1: "base_frame (c\<lparr> rng_pos := rng_pos c + 1 \<rparr>) c1"
        and l1: "ml_live c1 \<subseteq># ml_live c" and sz: "size (ml_live c1) < size (ml_live c)"
        and s1: "sub c1 = sub c" "rng c1 = rng c"
        by auto
      from fr1 have fr: "base_frame c c1" by (simp add: base_frame_def)
      then have cs: "cache_size c1 = cache_size c" by (simp add: base_frame_def)
      have step: "evict_loop c pidx r v = evict_loop c1 pidx r v"
        using True rs ps es by (subst evict_loop.simps) simp
      from less.hyps [OF sz inv1] less.prems(2) cs
      have "(\<exists>c'. evict_loop c1 pidx r v = Some (Inr c') \<and> table_inv c' \<and> base_frame c1 c'
                \<and> used_size c' + v \<le> cache_size c' \<and> ml_live c' \<subseteq># ml_live c1
                \<and> sub c' = sub c1 \<and> rng c' = rng c1)
            \<or> evict_loop c1 pidx r v = Some (Inl OverflowError)" by simp
      then show ?thesis
      proof (elim disjE exE conjE)
        assume "evict_loop c1 pidx r v = Some (Inl OverflowError)"
        with step show ?thesis by simp
      next
        fix c'
        assume c': "evict_loop c1 pidx r v = Some (Inr c')" "table_inv c'" "base_frame c1 c'"
          "used_size c' + v \<le> cache_size c'" "ml_live c' \<subseteq># ml_live c1"
          "sub c' = sub c1" "rng c' = rng c1"
        from fr c'(3) have "base_frame c c'" by (rule base_frame_trans)
        moreover from c'(5) l1 have "ml_live c' \<subseteq># ml_live c"
          by (rule subset_mset.order_trans)
        ultimately show ?thesis using step c' s1 by simp
      qed
    qed
  qed
qed

definition sel_ok :: "'x select_policy \<Rightarrow> ('x \<Rightarrow> nat \<Rightarrow> bool) \<Rightarrow> bool" where
  "sel_ok sel I \<longleftrightarrow>
     (\<forall>x ps r k d. ps \<noteq> [] \<longrightarrow> I x (length ps) \<longrightarrow>
        (\<exists>i x'. sel x ps r k d = Inr (i, x') \<and> i < length ps \<and> I x' (length ps))
        \<or> sel x ps r k d = Inl OverflowError)"

definition ml_inv :: "('x \<Rightarrow> nat \<Rightarrow> bool) \<Rightarrow> 'x MLCache \<Rightarrow> bool" where
  "ml_inv I c \<longleftrightarrow>
     table_inv c \<and> used_size c \<le> cache_size c \<and> policies c \<noteq> []
     \<and> I (sub c) (length (policies c))
     \<and> (\<forall>i < length (policies c). policy_names (policy_stats c) i \<noteq> None
            \<and> policy_names (per_hour_policy_stats c) i \<noteq> None)"

lemma PolicyStats_update_metrics_total:
  "policy_names s i \<noteq> None \<Longrightarrow>
   \<exists>s'. PolicyStats_update_metrics s t i = Inr s' \<and> policy_names s' = policy_names s"
  by (auto simp: PolicyStats_update_metrics_def Let_def)

lemma MLCache_evict_total:
  assumes inv: "ml_inv I c" and sel: "sel_ok sel I" and v: "v \<le> cache_size c" and v0: "0 \<le> v"
  shows "(\<exists>c' i. MLCache_evict sel c r k h v = Inr c' \<and> ml_inv I c' \<and> base_frame c c'
              \<and> used_size c' + v \<le> cache_size c' \<and> ml_live c' \<subseteq># ml_live c
              \<and> sel (sub c) (policies c) r k (rng c (rng_pos c)) = Inr (i, sub c')
              \<and> i < length (policies c))
         \<or> MLCache_evict sel c r k h v = Inl OverflowError"
proof -
  from inv have ti: "table_inv c" and ne: "policies c \<noteq> []"
    and I: "I (sub c) (length (policies c))"
    and pn: "\<forall>i < length (policies c). policy_names (policy_stats c) i \<noteq> None
            \<and> policy_names (per_hour_policy_stats c) i \<noteq> None"
    by (simp_all add: ml_inv_def)
  from sel ne I have
    "(\<exists>i x'. sel (sub c) (policies c) r k (rng c (rng_pos c)) = Inr (i, x')
        \<and> i < length (policies c) \<and> I x' (length (policies c)))
     \<or> sel (sub c) (policies c) r k (rng c (rng_pos c)) = Inl OverflowError"
    unfolding sel_ok_def by blast
  then show ?thesis
  proof (elim disjE exE conjE)
    assume "sel (sub c) (policies c) r k (rng c (rng_pos c)) = Inl OverflowError"
    then show ?thesis by (simp add: MLCache_evict_def)
  next
    fix i x'
    assume s: "sel (sub c) (policies c) r k (rng c (rng_pos c)) = Inr (i, x')"
      and i: "i < length (policies c)" and I': "I x' (length (policies c))"
    from pn i PolicyStats_update_metrics_total [of "policy_stats c" i "access_time r"]
    obtain s1 where s1: "PolicyStats_update_metrics (policy_stats c) (access_time r) i = Inr s1"
      "policy_names s1 = policy_names (policy_stats c)" by blast
    from pn i PolicyStats_update_metrics_total [of "per_hour_policy_stats c" i "access_time r"]
    obtain s2 where
      s2: "PolicyStats_update_metrics (per_hour_policy_stats c) (access_time r) i = Inr s2"
      "policy_names s2 = policy_names (per_hour_policy_stats c)" by blast
    define c1 where "c1 = c\<lparr> sub := x', rng_pos := rng_pos c + 1,
                            policies := (policies c)[i := Policy_delete (policies c ! i) k],
                            policy_stats := s1, per_hour_policy_stats := s2 \<rparr>"
    have ti1: "table_inv c1" using ti by (simp add: table_inv_def ml_live_def c1_def)
    have fr1: "base_frame c c1" by (simp add: base_frame_def c1_def s1 s2)
    have l1: "ml_live c1 = ml_live c" by (simp add: ml_live_def c1_def)
    have v1: "v \<le> cache_size c1" using v by (simp add: c1_def)
    have ev: "MLCache_evict sel c r k h v =
                (case evict_loop c1 i r v of None \<Rightarrow> Inl NonTermination | Some res \<Rightarrow> res)"
      using s i s1(1) s2(1) by (simp add: MLCache_evict_def c1_def)
    from evict_loop_total [OF ti1 v1, of i r]
    show ?thesis
    proof (elim disjE exE conjE)
      assume "evict_loop c1 i r v = Some (Inl OverflowError)"
      with ev show ?thesis by simp
    next
      fix c'
      assume c': "evict_loop c1 i r v = Some (Inr c')" "table_inv c'" "base_frame c1 c'"
        "used_size c' + v \<le> cache_size c'" "ml_live c' \<subseteq># ml_live c1" "sub c' = sub c1"
      from fr1 c'(3) have fr: "base_frame c c'" by (rule base_frame_trans)
      have "ml_inv I c' \<longleftrightarrow> used_size c' \<le> cache_size c'"
        using c'(2,6) fr ne I' pn by (auto simp: ml_inv_def base_frame_def c1_def)
      with c'(4) v0 have "ml_inv I c'" by simp
      moreover have "sub c' = x'" using c'(6) by (simp add: c1_def)
      ultimately show ?thesis using ev c'(1,4,5) fr l1 s i by auto
    qed
  qed
qed


lemma lookup_None_iff:
  assumes "ht_wf t"
  shows "HashTable_lookup t k h = None \<longleftrightarrow> (\<forall>e \<in># ht_live (table t). \<not> same_key k h e)"
proof
  assume n: "HashTable_lookup t k h = None"
  show "\<forall>e \<in># ht_live (table t). \<not> same_key k h e"
  proof (intro ballI notI)
    fix e assume "e \<in># ht_live (table t)" "same_key k h e"
    then have "HashTable_lookup t k h = Some (hvalue e)"
      unfolding lookup_Some_iff [OF assms] by blast
    with n show False by simp
  qed
next
  assume a: "\<forall>e \<in># ht_live (table t). \<not> same_key k h e"
  show "HashTable_lookup t k h = None"
  proof (cases "HashTable_lookup t k h")
    case None
    then show ?thesis .
  next
    case (Some v)
    then obtain e where "e \<in># ht_live (table t)" "same_key k h e"
      unfolding lookup_Some_iff [OF assms] by blast
    with a show ?thesis by blast
  qed
qed

lemma table_inv_insert_hit:
  assumes ti: "table_inv c" and lk: "HashTable_lookup (ml_table c) k h = Some val"
    and vs: "value_size nv = value_size val"
  shows "table_inv (c\<lparr> ml_table := HashTable_insert (ml_table c) k h nv \<rparr>)"
proof -
  let ?F = "{#x \<in># ml_live c. \<not> same_key k h x#}"
  from ti have wf: "ht_wf (ml_table c)" and used: "used_size c = sum_sizes (ml_live c)"
    and pos: "\<forall>e \<in># ml_live c. 0 < value_size (hvalue e)"
    by (simp_all add: table_inv_def)
  from lk obtain e where e: "e \<in># ml_live c" "same_key k h e" "hvalue e = val"
    unfolding lookup_Some_iff [OF wf] ml_live_def by blast
  from wf have "uniq (ml_live c)" by (simp add: ht_wf_def ml_live_def)
  from uniq_split [OF this e(1,2)] have sp: "ml_live c = add_mset e ?F" .
  from insert_props [OF wf, of k h nv]
  have wf': "ht_wf (HashTable_insert (ml_table c) k h nv)"
    and live': "ht_live (table (HashTable_insert (ml_table c) k h nv))
                = add_mset \<lparr> hkey = k, hhash = h, hvalue = nv \<rparr> ?F"
    by (simp_all add: ml_live_def)
  have "sum_sizes (ml_live c) = value_size val + sum_sizes ?F"
    by (subst sp) (simp add: e(3))
  moreover have "0 < value_size val" using pos e(1,3) by auto
  moreover have "\<forall>x \<in># ?F. 0 < value_size (hvalue x)" using pos by simp
  ultimately show ?thesis
    using wf' used vs by (simp add: table_inv_def ml_live_def live')
qed

lemma table_inv_insert_miss:
  assumes ti: "table_inv c" and nk: "\<forall>e \<in># ml_live c. \<not> same_key k h e"
    and vs: "0 < value_size nv"
  shows "table_inv (c\<lparr> ml_table := HashTable_insert (ml_table c) k h nv,
                        used_size := used_size c + value_size nv \<rparr>)"
proof -
  from ti have wf: "ht_wf (ml_table c)" and used: "used_size c = sum_sizes (ml_live c)"
    and pos: "\<forall>e \<in># ml_live c. 0 < value_size (hvalue e)"
    by (simp_all add: table_inv_def)
  from nk have F: "{#x \<in># ml_live c. \<not> same_key k h x#} = ml_live c" by (rule uniq_absent)
  from insert_props [OF wf, of k h nv] F
  have wf': "ht_wf (HashTable_insert (ml_table c) k h nv)"
    and live': "ht_live (table (HashTable_insert (ml_table c) k h nv))
                = add_mset \<lparr> hkey = k, hhash = h, hvalue = nv \<rparr> (ml_live c)"
    by (simp_all add: ml_live_def)
  from wf' used pos vs show ?thesis
    by (simp add: table_inv_def ml_live_def live')
qed

lemma ML_access_kv_total:
  assumes inv: "ml_inv I c" and sel: "sel_ok sel I"
  shows "(\<exists>hit c'. access_kv (MLCache_methods sel) c r k h v ni = Inr (hit, c')
                  \<and> ml_inv I c' \<and> base_frame c c')
         \<or> access_kv (MLCache_methods sel) c r k h v ni = Inl OverflowError"
proof -
  from inv have ti: "table_inv c" and le: "used_size c \<le> cache_size c"
    by (simp_all add: ml_inv_def)
  from ti have wf: "ht_wf (ml_table c)" by (simp add: table_inv_def)
  show ?thesis
  proof (cases "HashTable_lookup (ml_table c) k h")
    case (Some val)
    define nv where "nv = CacheEntry_init (value_size val) (ce_cf_id val) (ce_level val)
        (ce_block_type val) (num_accesses (miss_ratio_stats c)) (access_time r) (num_hits val + 1)"
    define c1 where "c1 = c\<lparr> ml_table := HashTable_insert (ml_table c) k h nv \<rparr>"
    have "value_size nv = value_size val" by (simp add: nv_def CacheEntry_init_def)
    from table_inv_insert_hit [OF ti Some this] have "table_inv c1" by (simp add: c1_def)
    with inv have "ml_inv I c1" by (simp add: ml_inv_def c1_def)
    moreover have "base_frame c c1" by (simp add: base_frame_def c1_def)
    moreover have "access_kv (MLCache_methods sel) c r k h v ni = Inr (True, c1)"
      using Some le by (simp add: access_kv_def MLCache_methods_def MLCache_lookup_def
          c1_def nv_def)
    ultimately show ?thesis by blast
  next
    case None
    then have lk: "m_lookup (MLCache_methods sel) c r k h = Inr (False, c)"
      by (simp add: MLCache_methods_def MLCache_lookup_def)
    show ?thesis
    proof (cases "ni \<or> v \<le> 0 \<or> v > cache_size c")
      case True
      then have "access_kv (MLCache_methods sel) c r k h v ni = Inr (False, c)"
        using lk le by (auto simp: access_kv_def)
      with inv show ?thesis by auto
    next
      case False
      then have v: "0 < v" "v \<le> cache_size c" "\<not> ni" by auto
      then have v0: "0 \<le> v" by simp
      from MLCache_evict_total [OF inv sel v(2) v0, of r k h]
      show ?thesis
      proof (elim disjE exE conjE)
        assume "MLCache_evict sel c r k h v = Inl OverflowError"
        with lk le False show ?thesis
          by (simp add: access_kv_def MLCache_methods_def)
      next
        fix c2 i
        assume c2: "MLCache_evict sel c r k h v = Inr c2" "ml_inv I c2" "base_frame c c2"
          "used_size c2 + v \<le> cache_size c2" "ml_live c2 \<subseteq># ml_live c"
        define nv where "nv = CacheEntry_init v (cf_id r) (level r) (block_type r)
                         (num_accesses (miss_ratio_stats c2)) (access_time r) 0"
        define c3 where "c3 = c2\<lparr> ml_table := HashTable_insert (ml_table c2) k h nv \<rparr>"
        define c4 where "c4 = c3\<lparr> used_size := used_size c3 + v \<rparr>"
        have vs: "value_size nv = v" by (simp add: nv_def CacheEntry_init_def)
        from None have "\<forall>e \<in># ml_live c. \<not> same_key k h e"
          by (simp add: lookup_None_iff [OF wf] ml_live_def)
        with c2(5) have nk: "\<forall>e \<in># ml_live c2. \<not> same_key k h e"
          by (meson mset_subset_eqD)
        from c2(2) have ti2: "table_inv c2" by (simp add: ml_inv_def)
        from table_inv_insert_miss [OF ti2 nk, of nv] v(1) vs
        have ti4: "table_inv c4" by (simp add: c4_def c3_def)
        have "ml_inv I c4" using c2(2,4) ti4 by (simp add: ml_inv_def c4_def c3_def)
        moreover have "base_frame c c4" using c2(3) by (simp add: base_frame_def c4_def c3_def)
        moreover have "access_kv (MLCache_methods sel) c r k h v ni = Inr (False, c4)"
          using lk le False c2(1,3,4)
          by (simp add: access_kv_def MLCache_methods_def MLCache_insert_def
              c4_def c3_def nv_def)
        ultimately show ?thesis by blast
      qed
    qed
  qed
qed

text \<open>
  What the two \<^verbatim>\<open>_select_policy\<close> need of the subclass fields: Thompson sampling one
  counter pair per policy, all positive; LinUCB nothing.
\<close>

definition ts_inv :: "ThompsonSampling \<Rightarrow> nat \<Rightarrow> bool" where
  "ts_inv x n \<longleftrightarrow>
     length (ts_as x) = n \<and> length (ts_bs x) = n
     \<and> (\<forall>a \<in> set (ts_as x). 0 < a) \<and> (\<forall>b \<in> set (ts_bs x). 0 < b)"

lemma beta_samples_None:
  "\<forall>i \<in> set is. i < length as \<and> i < length bs \<and> 0 < as ! i \<and> 0 < bs ! i \<Longrightarrow>
   beta_samples as bs is = None"
  by (induction "is") auto

lemma ThompsonSamplingCache_select_policy_result:
  assumes "ts_inv x (length ps)" "ps \<noteq> []"
  shows "ThompsonSamplingCache_select_policy x ps r k d =
           Inr (d mod length ps,
                x\<lparr> ts_as := (ts_as x)[d mod length ps :=
                       ts_as x ! (d mod length ps) + generate_reward (ps ! (d mod length ps)) k],
                   ts_bs := (ts_bs x)[d mod length ps :=
                       ts_bs x ! (d mod length ps)
                       + (1 - generate_reward (ps ! (d mod length ps)) k)] \<rparr>)"
proof -
  from assms have "beta_samples (ts_as x) (ts_bs x) [0..<length ps] = None"
    by (intro beta_samples_None) (auto simp: ts_inv_def)
  with assms show ?thesis
    by (simp add: ThompsonSamplingCache_select_policy_def Let_def generate_reward_def ts_inv_def)
qed

lemma sel_ok_Thompson: "sel_ok ThompsonSamplingCache_select_policy ts_inv"
proof -
  have "ts_inv (x\<lparr> ts_as := (ts_as x)[i := ts_as x ! i + generate_reward p k],
                   ts_bs := (ts_bs x)[i := ts_bs x ! i + (1 - generate_reward p k)] \<rparr>) n"
    if "ts_inv x n" "i < n" for x n i p k
  proof -
    from that have "0 < ts_as x ! i" "0 < ts_bs x ! i" by (auto simp: ts_inv_def)
    then have "0 < ts_as x ! i + generate_reward p k"
      "0 < ts_bs x ! i + (1 - generate_reward p k)"
      by (simp_all add: generate_reward_def)
    with that(1) show ?thesis by (auto simp: ts_inv_def dest!: set_update_subset_insert [THEN subsetD])
  qed
  then show ?thesis
    by (auto simp: sel_ok_def ThompsonSamplingCache_select_policy_result)
qed

lemma sel_ok_LinUCB: "sel_ok LinUCBCache_select_policy (\<lambda>x n. True)"
  by (auto simp: sel_ok_def LinUCBCache_select_policy_def Let_def generate_reward_def
      split: sum.splits dest: py_float_raises)

lemma ML_accesses_total:
  assumes inv: "ml_inv I c" and sel: "sel_ok sel I"
  shows "(\<exists>c'. accesses (MLCache_methods sel) c rs = Inr c' \<and> ml_inv I c')
         \<or> accesses (MLCache_methods sel) c rs = Inl OverflowError"
proof -
  have "(\<exists>c'. accesses (MLCache_methods sel) c rs = Inr c' \<and> ml_inv I c')
        \<or> (\<exists>e \<in> {OverflowError}. accesses (MLCache_methods sel) c rs = Inl e)"
  proof (rule accesses_safe [where Inv = "ml_inv I"])
    show "(\<exists>hit c'. access_kv (MLCache_methods sel) c r k h v ni = Inr (hit, c') \<and> ml_inv I c'
            \<and> get_id_row_key_map c' = get_id_row_key_map c)
          \<or> (\<exists>e \<in> {OverflowError}. access_kv (MLCache_methods sel) c r k h v ni = Inl e)"
      if "ml_inv I c" for c r k h v ni
      using ML_access_kv_total [OF that sel, of r k h v ni] by (auto simp: base_frame_def)
    show "ml_inv I (c\<lparr> miss_ratio_stats := s1, per_hour_miss_ratio_stats := s2 \<rparr>)"
      if "ml_inv I c" for c s1 s2
      using that by (simp add: ml_inv_def table_inv_def ml_live_def)
    show "ml_inv I (c\<lparr> get_id_row_key_map := m \<rparr>)" if "ml_inv I c" for c m
      using that by (simp add: ml_inv_def table_inv_def ml_live_def)
    show "used_size c \<le> cache_size c" if "ml_inv I c" for c
      using that by (simp add: ml_inv_def)
    show "ml_inv I c" by (rule inv)
  qed
  then show ?thesis by simp
qed

lemma ThompsonSamplingCache_init_inv:
  "0 \<le> csize \<Longrightarrow> ps \<noteq> [] \<Longrightarrow> 0 < a \<Longrightarrow> 0 < b \<Longrightarrow>
   ml_inv ts_inv (ThompsonSamplingCache_init csize row ps a b g)"
  by (simp add: ml_inv_def table_inv_def ml_live_def ThompsonSamplingCache_init_def
      HashTable_init_wf PolicyStats_init_def ts_inv_def)

lemma LinUCBCache_init_inv:
  "0 \<le> csize \<Longrightarrow> ps \<noteq> [] \<Longrightarrow> ml_inv (\<lambda>x n. True) (LinUCBCache_init csize row ps g)"
  by (simp add: ml_inv_def table_inv_def ml_live_def LinUCBCache_init_def
      HashTable_init_wf PolicyStats_init_def)

section \<open>LRU: the deque and the table hold the same keys\<close>

text \<open>
  \<open>keyed_inv\<close>: the keys of a list are distinct, each has an entry of positive size in
  the table, and \<open>used_size\<close> is the sum of those sizes. For the LRU cache the list is its
  deque, and the deque holds exactly the keys of the table.
\<close>

definition keys_size :: "(string \<rightharpoonup> CacheEntry) \<Rightarrow> string list \<Rightarrow> int" where
  "keys_size tbl ks = (\<Sum>k\<in>#mset ks. value_size (the (tbl k)))"

definition keyed_inv :: "(string \<rightharpoonup> CacheEntry) \<Rightarrow> string list \<Rightarrow> int \<Rightarrow> bool" where
  "keyed_inv tbl ks used \<longleftrightarrow>
     distinct ks \<and> (\<forall>k \<in> set ks. \<exists>e. tbl k = Some e \<and> 0 < value_size e)
     \<and> used = keys_size tbl ks"

lemma keys_size_simps [simp]:
  "keys_size tbl [] = 0"
  "keys_size tbl (k # ks) = value_size (the (tbl k)) + keys_size tbl ks"
  "keys_size tbl (ks @ ks') = keys_size tbl ks + keys_size tbl ks'"
  by (simp_all add: keys_size_def)

lemma keys_size_upd: "k \<notin> set ks \<Longrightarrow> keys_size (tbl(k := x)) ks = keys_size tbl ks"
  by (induction ks) auto

lemma keys_size_pos:
  "\<forall>k \<in> set ks. \<exists>e. tbl k = Some e \<and> 0 < value_size e \<Longrightarrow> ks \<noteq> [] \<Longrightarrow> 0 < keys_size tbl ks"
proof (induction ks)
  case Nil
  then show ?case by simp
next
  case (Cons k ks)
  then show ?case by (cases "ks = []") (auto simp: add_pos_pos)
qed

lemma mset_appendleft: "distinct ks \<Longrightarrow> k \<in> set ks \<Longrightarrow> mset (appendleft ks k) = mset ks"
  by (induction ks) (auto simp: appendleft_def)

lemma appendleft_new: "k \<notin> set ks \<Longrightarrow> appendleft ks k = ks @ [k]"
  by (simp add: appendleft_def)

lemma distinct_appendleft: "distinct ks \<Longrightarrow> distinct (appendleft ks k)"
  by (simp add: appendleft_def distinct_removeAll)

lemma set_appendleft [simp]: "set (appendleft ks k) = insert k (set ks)"
  by (auto simp: appendleft_def)

lemma keys_size_appendleft:
  "distinct ks \<Longrightarrow> k \<in> set ks \<Longrightarrow> keys_size tbl (appendleft ks k) = keys_size tbl ks"
  by (simp add: keys_size_def mset_appendleft)

definition lru_inv :: "LRUCache \<Rightarrow> bool" where
  "lru_inv c \<longleftrightarrow>
     keyed_inv (lru_table c) (lru c) (used_size c) \<and> dom (lru_table c) = set (lru c)"

lemma LRUCache_evict_total:
  "lru_inv c \<Longrightarrow> v \<le> cache_size c \<Longrightarrow>
   \<exists>c'. LRUCache_evict c r k h v = Inr c' \<and> lru_inv c' \<and> base_frame c c'
        \<and> used_size c' + v \<le> cache_size c' \<and> set (lru c') \<subseteq> set (lru c)"
proof (induction "length (lru c)" arbitrary: c rule: less_induct)
  case less
  from less.prems(1) have ki: "keyed_inv (lru_table c) (lru c) (used_size c)"
    and dm: "dom (lru_table c) = set (lru c)" by (simp_all add: lru_inv_def)
  show ?case
  proof (cases "used_size c + v > cache_size c")
    case False
    with less.prems show ?thesis by (subst LRUCache_evict.simps) simp
  next
    case True
    with less.prems(2) ki have "lru c \<noteq> []" by (auto simp: keyed_inv_def)
    then obtain k0 ks where l: "lru c = k0 # ks" by (cases "lru c") auto
    with ki obtain e where e: "lru_table c k0 = Some e" by (auto simp: keyed_inv_def)
    define c1 where "c1 = c\<lparr> lru := ks, used_size := used_size c - value_size e,
                            lru_table := (lru_table c)(k0 := None) \<rparr>"
    from ki l have k0: "k0 \<notin> set ks" "distinct ks" by (simp_all add: keyed_inv_def)
    have "keyed_inv (lru_table c1) (lru c1) (used_size c1)"
      using ki l e k0 by (auto simp: keyed_inv_def c1_def keys_size_upd)
    moreover have "dom (lru_table c1) = set (lru c1)"
      using dm l k0 by (auto simp: c1_def)
    ultimately have inv1: "lru_inv c1" by (simp add: lru_inv_def)
    have fr1: "base_frame c c1" by (simp add: base_frame_def c1_def)
    have len: "length (lru c1) < length (lru c)" by (simp add: c1_def l)
    have v1: "v \<le> cache_size c1" using less.prems(2) by (simp add: c1_def)
    from less.hyps [OF len inv1 v1] obtain c' where
      c': "LRUCache_evict c1 r k h v = Inr c'" "lru_inv c'" "base_frame c1 c'"
        "used_size c' + v \<le> cache_size c'" "set (lru c') \<subseteq> set (lru c1)" by blast
    have "LRUCache_evict c r k h v = LRUCache_evict c1 r k h v"
      using True l e by (subst LRUCache_evict.simps) (simp add: Deque_pop_def c1_def)
    with c' fr1 l show ?thesis
      by (auto simp: c1_def intro: base_frame_trans)
  qed
qed

lemma LRU_access_kv_total:
  assumes inv: "lru_inv c" and le: "used_size c \<le> cache_size c"
  shows "\<exists>hit c'. access_kv LRUCache_methods c r k h v ni = Inr (hit, c')
                  \<and> lru_inv c' \<and> used_size c' \<le> cache_size c' \<and> base_frame c c'"
proof -
  from inv have ki: "keyed_inv (lru_table c) (lru c) (used_size c)"
    and dm: "dom (lru_table c) = set (lru c)" by (simp_all add: lru_inv_def)
  show ?thesis
  proof (cases "k \<in> dom (lru_table c)")
    case True
    with dm have kin: "k \<in> set (lru c)" by simp
    define c1 where "c1 = c\<lparr> lru := appendleft (removeAll k (lru c)) k \<rparr>"
    have al: "appendleft (removeAll k (lru c)) k = appendleft (lru c) k"
      by (simp add: appendleft_def)
    have "keyed_inv (lru_table c1) (lru c1) (used_size c1)"
      using ki kin by (auto simp: keyed_inv_def c1_def al distinct_appendleft keys_size_appendleft)
    moreover have "dom (lru_table c1) = set (lru c1)" using dm kin by (auto simp: c1_def al)
    ultimately have "lru_inv c1" by (simp add: lru_inv_def)
    moreover have "base_frame c c1" "used_size c1 \<le> cache_size c1"
      using le by (simp_all add: base_frame_def c1_def)
    moreover have "access_kv LRUCache_methods c r k h v ni = Inr (True, c1)"
      using True kin le by (simp add: access_kv_def LRUCache_methods_def LRUCache_lookup_def
          Deque_remove_def c1_def)
    ultimately show ?thesis by blast
  next
    case False
    then have lk: "m_lookup LRUCache_methods c r k h = Inr (False, c)"
      by (simp add: LRUCache_methods_def LRUCache_lookup_def)
    show ?thesis
    proof (cases "ni \<or> v \<le> 0 \<or> v > cache_size c")
      case True
      then have "access_kv LRUCache_methods c r k h v ni = Inr (False, c)"
        using lk le by (auto simp: access_kv_def)
      with inv le show ?thesis by auto
    next
      case F: False
      then have v: "0 < v" "v \<le> cache_size c" "\<not> ni" by auto
      from LRUCache_evict_total [OF inv v(2), of r k h] obtain c2 where
        c2: "LRUCache_evict c r k h v = Inr c2" "lru_inv c2" "base_frame c c2"
          "used_size c2 + v \<le> cache_size c2" "set (lru c2) \<subseteq> set (lru c)" by blast
      define nv where "nv = CacheEntry_init v (cf_id r) (level r) (block_type r) 0 (access_time r) 0"
      define c4 where "c4 = c2\<lparr> lru_table := (lru_table c2)(k \<mapsto> nv),
                              lru := appendleft (lru c2) k,
                              used_size := used_size c2 + v \<rparr>"
      from c2(2) have ki2: "keyed_inv (lru_table c2) (lru c2) (used_size c2)"
        and dm2: "dom (lru_table c2) = set (lru c2)" by (simp_all add: lru_inv_def)
      from False dm c2(5) have nk: "k \<notin> set (lru c2)" by auto
      have vs: "value_size nv = v" by (simp add: nv_def CacheEntry_init_def)
      have "keyed_inv (lru_table c4) (lru c4) (used_size c4)"
        using ki2 nk v(1) vs
        by (auto simp: keyed_inv_def c4_def appendleft_new keys_size_upd)
      moreover have "dom (lru_table c4) = set (lru c4)" using dm2 by (auto simp: c4_def)
      ultimately have "lru_inv c4" by (simp add: lru_inv_def)
      moreover have "base_frame c c4" "used_size c4 \<le> cache_size c4"
        using c2(3,4) by (simp_all add: base_frame_def c4_def)
      moreover have "access_kv LRUCache_methods c r k h v ni = Inr (False, c4)"
        using lk le F c2(1,3)
        by (simp add: access_kv_def LRUCache_methods_def LRUCache_insert_def
            c4_def nv_def base_frame_def)
      ultimately show ?thesis by blast
    qed
  qed
qed

lemma LRU_accesses_total:
  assumes "0 \<le> csize"
  shows "\<exists>c'. accesses LRUCache_methods (LRUCache_init csize) rs = Inr c'
              \<and> used_size c' \<le> cache_size c'"
proof -
  let ?Inv = "\<lambda>c. lru_inv c \<and> used_size c \<le> cache_size c"
  have "\<exists>c'. accesses LRUCache_methods (LRUCache_init csize) rs = Inr c' \<and> ?Inv c'"
  proof (rule accesses_total [where Inv = ?Inv])
    show "\<exists>hit c'. access_kv LRUCache_methods c r k h v ni = Inr (hit, c') \<and> ?Inv c'
            \<and> get_id_row_key_map c' = get_id_row_key_map c" if "?Inv c" for c r k h v ni
      using LRU_access_kv_total [of c r k h v ni] that by (auto simp: base_frame_def)
    show "?Inv (c\<lparr> miss_ratio_stats := s1, per_hour_miss_ratio_stats := s2 \<rparr>)"
      if "?Inv c" for c s1 s2
      using that by (simp add: lru_inv_def)
    show "?Inv (c\<lparr> get_id_row_key_map := m \<rparr>)" if "?Inv c" for c m
      using that by (simp add: lru_inv_def)
    show "used_size c \<le> cache_size c" if "?Inv c" for c
      using that by simp
    show "?Inv (LRUCache_init csize)"
      using assms by (simp add: lru_inv_def keyed_inv_def LRUCache_init_def)
  qed
  then show ?thesis by blast
qed

section \<open>ARC: the entries of T1 and T2 are what the table holds\<close>

text \<open>
  For ARC the keyed list is \<open>t1 @ t2\<close>. \<^verbatim>\<open>_replace\<close> only runs while \<open>used_size\<close> is positive,
  so one of the two lists has a key to demote and its pop never comes back empty.
\<close>

lemma keyed_inv_perm:
  "mset ks = mset ks' \<Longrightarrow> keyed_inv tbl ks u \<Longrightarrow> keyed_inv tbl ks' u"
  by (auto simp: keyed_inv_def keys_size_def dest: mset_eq_setD mset_eq_imp_distinct_iff)

lemma keyed_inv_add:
  assumes "keyed_inv tbl ks u" "k \<notin> set ks" "0 < value_size nv"
    "mset ks' = add_mset k (mset ks)"
  shows "keyed_inv (tbl(k \<mapsto> nv)) ks' (u + value_size nv)"
proof -
  have "keyed_inv (tbl(k \<mapsto> nv)) (k # ks) (u + value_size nv)"
    using assms(1-3) by (auto simp: keyed_inv_def keys_size_upd)
  moreover have "mset (k # ks) = mset ks'" using assms(4) by simp
  ultimately show ?thesis by (rule keyed_inv_perm [rotated])
qed

lemma keyed_inv_drop:
  assumes "keyed_inv tbl ks u" "mset ks = add_mset old (mset ks')" "tbl old = Some e"
  shows "keyed_inv (tbl(old := None)) ks' (u - value_size e)"
proof -
  from assms(2) have "mset (old # ks') = mset ks" by simp
  from keyed_inv_perm [OF this [symmetric] assms(1)]
  have "keyed_inv tbl (old # ks') u" .
  with assms(3) show ?thesis by (auto simp: keyed_inv_def keys_size_upd)
qed

definition arc_inv :: "ARCCache \<Rightarrow> bool" where
  "arc_inv c \<longleftrightarrow> keyed_inv (arc_table c) (t1 c @ t2 c) (used_size c)"

lemma ARCCache_demote_total:
  assumes inv: "arc_inv c" and ne: "t1 c @ t2 c \<noteq> []"
  shows "\<exists>c'. ARCCache_demote c k = Inr c' \<and> arc_inv c' \<and> base_frame c c'
              \<and> set (t1 c' @ t2 c') \<subseteq> set (t1 c @ t2 c) \<and> set (b1 c) \<subseteq> set (b1 c')
              \<and> set (b2 c) \<subseteq> set (b2 c')"
proof -
  from inv have ki: "keyed_inv (arc_table c) (t1 c @ t2 c) (used_size c)"
    by (simp add: arc_inv_def)
  have fromt1: ?thesis
    if d: "ARCCache_demote c k =
             (case arc_table c old of None \<Rightarrow> Inl KeyError
              | Some entry \<Rightarrow>
                  Inr (c\<lparr> t1 := od, b1 := appendleft (b1 c) old,
                          used_size := used_size c - value_size entry,
                          arc_table := (arc_table c)(old := None) \<rparr>))"
      and l: "t1 c = old # od" for old od
  proof -
    from ki l obtain e where e: "arc_table c old = Some e" by (auto simp: keyed_inv_def)
    have "mset (t1 c @ t2 c) = add_mset old (mset (od @ t2 c))" by (simp add: l)
    from keyed_inv_drop [OF ki this e] d e l show ?thesis
      by (auto simp: arc_inv_def base_frame_def)
  qed
  have fromt2: ?thesis
    if d: "ARCCache_demote c k =
             (case arc_table c old of None \<Rightarrow> Inl KeyError
              | Some entry \<Rightarrow>
                  Inr (c\<lparr> t2 := od, b2 := appendleft (b2 c) old,
                          used_size := used_size c - value_size entry,
                          arc_table := (arc_table c)(old := None) \<rparr>))"
      and l: "t2 c = old # od" for old od
  proof -
    from ki l obtain e where e: "arc_table c old = Some e" by (auto simp: keyed_inv_def)
    have "mset (t1 c @ t2 c) = add_mset old (mset (t1 c @ od))" by (simp add: l)
    from keyed_inv_drop [OF ki this e] d e l show ?thesis
      by (auto simp: arc_inv_def base_frame_def)
  qed
  show ?thesis
  proof (cases "t1 c \<noteq> [] \<and> (k \<in> set (b2 c) \<or> int (length (t1 c)) > arc_p c)")
    case True
    then obtain old od where l: "t1 c = old # od" by (cases "t1 c") auto
    show ?thesis
      by (rule fromt1 [OF _ l]) (use True l in \<open>auto simp: ARCCache_demote_def Deque_pop_def split: option.splits\<close>)
  next
    case False
    show ?thesis
    proof (cases "t2 c")
      case (Cons old od)
      show ?thesis
        by (rule fromt2 [OF _ Cons])
           (use False Cons in \<open>auto simp: ARCCache_demote_def Deque_pop_def split: option.splits\<close>)
    next
      case Nil
      with ne obtain old od where l: "t1 c = old # od" by (cases "t1 c") auto
      show ?thesis
        by (rule fromt1 [OF _ l])
           (use False Nil l in \<open>auto simp: ARCCache_demote_def Deque_pop_def split: option.splits\<close>)
    qed
  qed
qed

lemma ARCCache_replace_total:
  "arc_inv c \<Longrightarrow> v \<le> cache_size c \<Longrightarrow>
   \<exists>c'. ARCCache_replace c k v = Inr c' \<and> arc_inv c' \<and> base_frame c c'
        \<and> used_size c' + v \<le> cache_size c'
        \<and> set (t1 c' @ t2 c') \<subseteq> set (t1 c @ t2 c) \<and> set (b1 c) \<subseteq> set (b1 c')
        \<and> set (b2 c) \<subseteq> set (b2 c')"
proof (induction "length (t1 c) + length (t2 c)" arbitrary: c rule: less_induct)
  case less
  show ?case
  proof (cases "used_size c + v > cache_size c")
    case False
    with less.prems show ?thesis by (subst ARCCache_replace.simps) simp
  next
    case True
    from less.prems(1) have ki: "keyed_inv (arc_table c) (t1 c @ t2 c) (used_size c)"
      by (simp add: arc_inv_def)
    with True less.prems(2) have ne: "t1 c @ t2 c \<noteq> []"
      by (auto simp: keyed_inv_def)
    from ARCCache_demote_total [OF less.prems(1) ne, of k] obtain c1 where
      c1: "ARCCache_demote c k = Inr c1" "arc_inv c1" "base_frame c c1"
        "set (t1 c1 @ t2 c1) \<subseteq> set (t1 c @ t2 c)" "set (b1 c) \<subseteq> set (b1 c1)"
        "set (b2 c) \<subseteq> set (b2 c1)" by blast
    from ARCCache_demote_length [OF c1(1)]
    have len: "length (t1 c1) + length (t2 c1) < length (t1 c) + length (t2 c)" .
    from c1(3) less.prems(2) have v1: "v \<le> cache_size c1" by (simp add: base_frame_def)
    from less.hyps [OF len c1(2) v1] obtain c' where
      c': "ARCCache_replace c1 k v = Inr c'" "arc_inv c'" "base_frame c1 c'"
        "used_size c' + v \<le> cache_size c'"
        "set (t1 c' @ t2 c') \<subseteq> set (t1 c1 @ t2 c1)" "set (b1 c1) \<subseteq> set (b1 c')"
        "set (b2 c1) \<subseteq> set (b2 c')" by blast
    have "ARCCache_replace c k v = ARCCache_replace c1 k v"
      using True c1(1) by (subst ARCCache_replace.simps) simp
    with c' c1 show ?thesis
      by (auto intro: base_frame_trans)
  qed
qed


lemma arc_inv_p [simp]: "arc_inv (c\<lparr> arc_p := x \<rparr>) = arc_inv c"
  by (simp add: arc_inv_def)

lemma ARCCache_evict_total:
  assumes inv: "arc_inv c" and v: "v \<le> cache_size c" and nk: "k \<notin> set (t1 c @ t2 c)"
  shows "\<exists>c2. ARCCache_evict c r k h v = Inr c2
              \<and> (\<exists>ks. keyed_inv (arc_table c2) ks (used_size c2) \<and> k \<notin> set ks
                      \<and> mset (t1 c2 @ t2 c2) = add_mset k (mset ks))
              \<and> used_size c2 + v \<le> cache_size c2 \<and> base_frame c c2"
proof -
  have rep: "\<exists>c1. ARCCache_replace c0 k v = Inr c1 \<and> arc_inv c1 \<and> base_frame c c1
        \<and> used_size c1 + v \<le> cache_size c1 \<and> k \<notin> set (t1 c1 @ t2 c1)
        \<and> set (b1 c) \<subseteq> set (b1 c1) \<and> set (b2 c) \<subseteq> set (b2 c1)"
    if "c0 = c\<lparr> arc_p := x \<rparr>" for c0 x
  proof -
    from that inv v have "arc_inv c0" "v \<le> cache_size c0" by simp_all
    from ARCCache_replace_total [OF this, of k] obtain c1 where
      c1: "ARCCache_replace c0 k v = Inr c1" "arc_inv c1" "base_frame c0 c1"
        "used_size c1 + v \<le> cache_size c1"
        "set (t1 c1 @ t2 c1) \<subseteq> set (t1 c0 @ t2 c0)" "set (b1 c0) \<subseteq> set (b1 c1)"
        "set (b2 c0) \<subseteq> set (b2 c1)" by blast
    with that nk show ?thesis by (auto simp: base_frame_def)
  qed
  show ?thesis
  proof (cases "k \<in> set (b1 c)")
    case True
    define c0 where "c0 = c\<lparr> arc_p := min (arc_c c)
                         (arc_p c + max (int (length (b2 c)) div int (length (b1 c))) 1) \<rparr>"
    from rep [OF c0_def] obtain c1 where
      c1: "ARCCache_replace c0 k v = Inr c1" "arc_inv c1" "base_frame c c1"
        "used_size c1 + v \<le> cache_size c1" "k \<notin> set (t1 c1 @ t2 c1)"
        "set (b1 c) \<subseteq> set (b1 c1)" by blast
    from True c1(6) have kb: "k \<in> set (b1 c1)" by auto
    define c2 where "c2 = c1\<lparr> b1 := removeAll k (b1 c1), t2 := appendleft (t2 c1) k \<rparr>"
    have ev: "ARCCache_evict c r k h v = Inr c2"
      using True c1(1) kb
      by (simp add: ARCCache_evict_def c0_def [symmetric] Deque_remove_def c2_def)
    have "keyed_inv (arc_table c2) (t1 c1 @ t2 c1) (used_size c2)"
      using c1(2) by (simp add: arc_inv_def c2_def)
    moreover have "mset (t1 c2 @ t2 c2) = add_mset k (mset (t1 c1 @ t2 c1))"
      using c1(5) by (simp add: c2_def appendleft_new)
    moreover have "base_frame c c2" "used_size c2 + v \<le> cache_size c2"
      using c1(3,4) by (simp_all add: base_frame_def c2_def)
    ultimately show ?thesis using ev c1(5) by blast
  next
    case F1: False
    show ?thesis
    proof (cases "k \<in> set (b2 c)")
      case True
      define c0 where "c0 = c\<lparr> arc_p := max 0
                         (arc_p c - max (int (length (b1 c)) div int (length (b2 c))) 1) \<rparr>"
      from rep [OF c0_def] obtain c1 where
        c1: "ARCCache_replace c0 k v = Inr c1" "arc_inv c1" "base_frame c c1"
          "used_size c1 + v \<le> cache_size c1" "k \<notin> set (t1 c1 @ t2 c1)"
          "set (b2 c) \<subseteq> set (b2 c1)" by blast
      from True c1(6) have kb: "k \<in> set (b2 c1)" by auto
      define c2 where "c2 = c1\<lparr> b2 := removeAll k (b2 c1), t2 := appendleft (t2 c1) k \<rparr>"
      have ev: "ARCCache_evict c r k h v = Inr c2"
        using F1 True c1(1) kb
        by (simp add: ARCCache_evict_def c0_def [symmetric] Deque_remove_def c2_def)
      have "keyed_inv (arc_table c2) (t1 c1 @ t2 c1) (used_size c2)"
        using c1(2) by (simp add: arc_inv_def c2_def)
      moreover have "mset (t1 c2 @ t2 c2) = add_mset k (mset (t1 c1 @ t2 c1))"
        using c1(5) by (simp add: c2_def appendleft_new)
      moreover have "base_frame c c2" "used_size c2 + v \<le> cache_size c2"
        using c1(3,4) by (simp_all add: base_frame_def c2_def)
      ultimately show ?thesis using ev c1(5) by blast
    next
      case False
      have "c = c\<lparr> arc_p := arc_p c \<rparr>" by simp
      from rep [OF this] obtain c1 where
        c1: "ARCCache_replace c k v = Inr c1" "arc_inv c1" "base_frame c c1"
          "used_size c1 + v \<le> cache_size c1" "k \<notin> set (t1 c1 @ t2 c1)" by auto
      define b1' where "b1' = trim_b1 (int (length (t1 c1))) (arc_c c1) (b1 c1)"
      define b2' where "b2' = trim_b2 (int (length (t1 c1)) + int (length b1')
                                + int (length (t2 c1)) + int (length (b2 c1))) (arc_c c1) (b2 c1)"
      define c2 where "c2 = c1\<lparr> b1 := b1', b2 := b2', t1 := appendleft (t1 c1) k \<rparr>"
      have ev: "ARCCache_evict c r k h v = Inr c2"
        using F1 False c1(1)
        by (simp add: ARCCache_evict_def Let_def c2_def b2'_def b1'_def)
      have "keyed_inv (arc_table c2) (t1 c1 @ t2 c1) (used_size c2)"
        using c1(2) by (simp add: arc_inv_def c2_def)
      moreover have "mset (t1 c2 @ t2 c2) = add_mset k (mset (t1 c1 @ t2 c1))"
        using c1(5) by (simp add: c2_def appendleft_new)
      moreover have "base_frame c c2" "used_size c2 + v \<le> cache_size c2"
        using c1(3,4) by (simp_all add: base_frame_def c2_def)
      ultimately show ?thesis using ev c1(5) by blast
    qed
  qed
qed

lemma mset_remove_append:
  "distinct ks \<Longrightarrow> k \<in> set ks \<Longrightarrow> add_mset k (mset (removeAll k ks)) = mset ks"
  by (induction ks) auto

lemma ARC_access_kv_total:
  assumes inv: "arc_inv c" and le: "used_size c \<le> cache_size c"
  shows "\<exists>hit c'. access_kv ARCCache_methods c r k h v ni = Inr (hit, c')
                  \<and> arc_inv c' \<and> used_size c' \<le> cache_size c' \<and> base_frame c c'"
proof -
  from inv have ki: "keyed_inv (arc_table c) (t1 c @ t2 c) (used_size c)"
    by (simp add: arc_inv_def)
  then have di: "distinct (t1 c)" "distinct (t2 c)" "set (t1 c) \<inter> set (t2 c) = {}"
    by (simp_all add: keyed_inv_def)
  have hit: ?thesis
    if lk: "ARCCache_lookup c r k h = Inr (True, c1)"
      and ms: "mset (t1 c1 @ t2 c1) = mset (t1 c @ t2 c)"
      and eq: "arc_table c1 = arc_table c" "used_size c1 = used_size c" "base_frame c c1"
    for c1
  proof -
    from keyed_inv_perm [OF ms [symmetric]] ki eq have "arc_inv c1" by (simp add: arc_inv_def)
    moreover have "access_kv ARCCache_methods c r k h v ni = Inr (True, c1)"
      using lk le by (simp add: access_kv_def ARCCache_methods_def)
    ultimately show ?thesis using eq le by (auto simp: base_frame_def)
  qed
  show ?thesis
  proof (cases "k \<in> set (t1 c)")
    case True
    with di have nk2: "k \<notin> set (t2 c)" by auto
    show ?thesis
    proof (rule hit)
      show "ARCCache_lookup c r k h
            = Inr (True, c\<lparr> t1 := removeAll k (t1 c), t2 := appendleft (t2 c) k \<rparr>)"
        using True by (simp add: ARCCache_lookup_def Deque_remove_def)
      show "mset (t1 (c\<lparr> t1 := removeAll k (t1 c), t2 := appendleft (t2 c) k \<rparr>)
                   @ t2 (c\<lparr> t1 := removeAll k (t1 c), t2 := appendleft (t2 c) k \<rparr>))
            = mset (t1 c @ t2 c)"
        using mset_remove_append [OF di(1) True] nk2 by (simp add: appendleft_new)
    qed (simp_all add: base_frame_def)
  next
    case F1: False
    show ?thesis
    proof (cases "k \<in> set (t2 c)")
      case True
      show ?thesis
      proof (rule hit)
        show "ARCCache_lookup c r k h
              = Inr (True, c\<lparr> t2 := appendleft (removeAll k (t2 c)) k \<rparr>)"
          using F1 True by (simp add: ARCCache_lookup_def Deque_remove_def)
        show "mset (t1 (c\<lparr> t2 := appendleft (removeAll k (t2 c)) k \<rparr>)
                     @ t2 (c\<lparr> t2 := appendleft (removeAll k (t2 c)) k \<rparr>))
              = mset (t1 c @ t2 c)"
          using mset_remove_append [OF di(2) True] by (simp add: appendleft_def)
      qed (simp_all add: base_frame_def)
    next
      case False
      with F1 have lk: "m_lookup ARCCache_methods c r k h = Inr (False, c)"
        by (simp add: ARCCache_methods_def ARCCache_lookup_def)
      show ?thesis
      proof (cases "ni \<or> v \<le> 0 \<or> v > cache_size c")
        case True
        then have "access_kv ARCCache_methods c r k h v ni = Inr (False, c)"
          using lk le by (auto simp: access_kv_def)
        with inv le show ?thesis by auto
      next
        case F: False
        then have v: "0 < v" "v \<le> cache_size c" "\<not> ni" by auto
        from F1 False have nk: "k \<notin> set (t1 c @ t2 c)" by simp
        from ARCCache_evict_total [OF inv v(2) nk, of r h] obtain c2 ks where
          c2: "ARCCache_evict c r k h v = Inr c2"
            "keyed_inv (arc_table c2) ks (used_size c2)" "k \<notin> set ks"
            "mset (t1 c2 @ t2 c2) = add_mset k (mset ks)"
            "used_size c2 + v \<le> cache_size c2" "base_frame c c2" by blast
        define nv where "nv = CacheEntry_init v (cf_id r) (level r) (block_type r) 0
                               (access_time r) 0"
        define c4 where "c4 = c2\<lparr> arc_table := (arc_table c2)(k \<mapsto> nv),
                                used_size := used_size c2 + v \<rparr>"
        have vs: "value_size nv = v" by (simp add: nv_def CacheEntry_init_def)
        from keyed_inv_add [OF c2(2,3) _ c2(4), of nv] v(1) vs
        have "arc_inv c4" by (simp add: arc_inv_def c4_def)
        moreover have "base_frame c c4" "used_size c4 \<le> cache_size c4"
          using c2(5,6) by (simp_all add: base_frame_def c4_def)
        moreover have "access_kv ARCCache_methods c r k h v ni = Inr (False, c4)"
          using lk le F c2(1,6)
          by (simp add: access_kv_def ARCCache_methods_def ARCCache_insert_def
              c4_def nv_def base_frame_def)
        ultimately show ?thesis by blast
      qed
    qed
  qed
qed

lemma ARC_accesses_total:
  assumes "0 \<le> csize"
  shows "\<exists>c'. accesses ARCCache_methods (ARCCache_init csize) rs = Inr c'
              \<and> used_size c' \<le> cache_size c'"
proof -
  let ?Inv = "\<lambda>c. arc_inv c \<and> used_size c \<le> cache_size c"
  have "\<exists>c'. accesses ARCCache_methods (ARCCache_init csize) rs = Inr c' \<and> ?Inv c'"
  proof (rule accesses_total [where Inv = ?Inv])
    show "\<exists>hit c'. access_kv ARCCache_methods c r k h v ni = Inr (hit, c') \<and> ?Inv c'
            \<and> get_id_row_key_map c' = get_id_row_key_map c" if "?Inv c" for c r k h v ni
      using ARC_access_kv_total [of c r k h v ni] that by (auto simp: base_frame_def)
    show "?Inv (c\<lparr> miss_ratio_stats := s1, per_hour_miss_ratio_stats := s2 \<rparr>)"
      if "?Inv c" for c s1 s2
      using that by (simp add: arc_inv_def)
    show "?Inv (c\<lparr> get_id_row_key_map := m \<rparr>)" if "?Inv c" for c m
      using that by (simp add: arc_inv_def)
    show "used_size c \<le> cache_size c" if "?Inv c" for c
      using that by simp
    show "?Inv (ARCCache_init csize)"
      using assms by (simp add: arc_inv_def keyed_inv_def ARCCache_init_def)
  qed
  then show ?thesis by blast
qed

section \<open>OPT and GreedyDual-Size: the heap and the table agree\<close>

text \<open>
  \<open>pq_live\<close> is the bag of the entries the heap refers to that are not marked removed.
  \<open>pq_inv\<close>: the references of the heap are distinct and valid, and the table maps a key
  to a reference exactly when the heap holds that reference, its entry is not marked
  removed and carries that key. So every entry of the table is in the heap, unmarked,
  and every unmarked heap entry is the table entry of its key.
\<close>

definition strict_order :: "('a \<Rightarrow> 'a \<Rightarrow> bool) \<Rightarrow> bool" where
  "strict_order lt \<longleftrightarrow> (\<forall>a b c. lt a b \<longrightarrow> lt b c \<longrightarrow> lt a c) \<and> (\<forall>a b. lt a b \<longrightarrow> \<not> lt b a)"

lemma smallest_below:
  assumes "strict_order lt"
  shows "smallest lt m xs = m \<or> lt (smallest lt m xs) m"
proof (induction xs arbitrary: m)
  case Nil
  then show ?case by simp
next
  case (Cons y ys)
  show ?case
  proof (cases "lt y m")
    case True
    have tr: "lt a m" if "lt a y" for a
      using that True assms unfolding strict_order_def by blast
    from Cons.IH [of y] have "lt (smallest lt y ys) m"
      using True tr by auto
    with True show ?thesis by simp
  next
    case False
    with Cons.IH [of m] show ?thesis by simp
  qed
qed

lemma smallest_least:
  assumes "strict_order lt"
  shows "\<forall>x \<in> set (m # xs). \<not> lt x (smallest lt m xs)"
proof (induction xs arbitrary: m)
  case Nil
  have "\<not> lt m m" using assms unfolding strict_order_def by blast
  then show ?case by simp
next
  case (Cons y ys)
  show ?case
  proof (cases "lt y m")
    case True
    from Cons.IH [of y] have ih: "\<forall>x \<in> set (y # ys). \<not> lt x (smallest lt y ys)" .
    have "\<not> lt m (smallest lt y ys)"
    proof
      assume a: "lt m (smallest lt y ys)"
      with True assms have "lt y (smallest lt y ys)" unfolding strict_order_def by blast
      with ih show False by simp
    qed
    with ih True show ?thesis by simp
  next
    case False
    from Cons.IH [of m] have ih: "\<forall>x \<in> set (m # ys). \<not> lt x (smallest lt m ys)" .
    have "\<not> lt y (smallest lt m ys)"
    proof
      assume a: "lt y (smallest lt m ys)"
      from smallest_below [OF assms, of m ys] show False
      proof
        assume "smallest lt m ys = m"
        with a False show False by simp
      next
        assume "lt (smallest lt m ys) m"
        with a assms have "lt y m" unfolding strict_order_def by blast
        with False show False by simp
      qed
    qed
    with ih False show ?thesis by simp
  qed
qed

lemma heappop_props:
  assumes "strict_order lt" "h \<noteq> []" "heappop lt h = (m, h')"
  shows "m \<in> set h \<and> h' = remove1 m h \<and> (\<forall>x \<in> set h. \<not> lt x m)"
proof -
  from assms(2) have h: "hd h # tl h = h" by simp
  from assms(3) have m: "m = smallest lt (hd h) (tl h)" "h' = remove1 m h"
    by (auto simp: heappop_def Let_def)
  from smallest_in [of lt "hd h" "tl h"] smallest_least [OF assms(1), of "hd h" "tl h"] h m
  show ?thesis by simp
qed

definition is_live :: "'a PQEntry_scheme PQTable \<Rightarrow> nat \<Rightarrow> bool" where
  "is_live t r \<longleftrightarrow> \<not> is_removed (objs t ! r)"

definition pq_live :: "'a PQEntry_scheme PQTable \<Rightarrow> 'a PQEntry_scheme multiset" where
  "pq_live t = image_mset (\<lambda>r. objs t ! r) (mset (filter (is_live t) (pq t)))"

definition pq_inv :: "'a PQEntry_scheme PQTable \<Rightarrow> bool" where
  "pq_inv t \<longleftrightarrow>
     distinct (pq t) \<and> (\<forall>r \<in> set (pq t). r < length (objs t))
     \<and> (\<forall>k r. pq_table t k = Some r \<longleftrightarrow>
                 (r \<in> set (pq t) \<and> is_live t r \<and> ekey (objs t ! r) = k))"

lemma is_live_upd [simp]:
  "is_live (t\<lparr> pq := x \<rparr>) = is_live t" "is_live (t\<lparr> pq_table := y \<rparr>) = is_live t"
  by (simp_all add: is_live_def fun_eq_iff)

lemma PQTable_init_inv: "pq_inv PQTable_init" "pq_live PQTable_init = {#}"
  by (simp_all add: pq_inv_def pq_live_def PQTable_init_def)

lemma pq_live_member:
  "e \<in># pq_live t \<longleftrightarrow> (\<exists>r \<in> set (pq t). is_live t r \<and> e = objs t ! r)"
  by (auto simp: pq_live_def)

lemma pq_table_live:
  "pq_inv t \<Longrightarrow> pq_table t k = Some r \<Longrightarrow> objs t ! r \<in># pq_live t \<and> ekey (objs t ! r) = k"
  by (auto simp: pq_inv_def pq_live_member)

lemma pq_live_table:
  "pq_inv t \<Longrightarrow> e \<in># pq_live t \<Longrightarrow> \<exists>r. pq_table t (ekey e) = Some r \<and> objs t ! r = e"
  by (auto simp: pq_inv_def pq_live_member)

lemma pq_live_not_removed: "e \<in># pq_live t \<Longrightarrow> \<not> is_removed e"
  by (auto simp: pq_live_member is_live_def)

lemma mset_filter_remove1_dead:
  "\<not> P m \<Longrightarrow> filter P (remove1 m xs) = filter P xs"
  by (induction xs) auto

lemma mset_filter_remove1_live:
  "P m \<Longrightarrow> m \<in> set xs \<Longrightarrow> mset (filter P xs) = add_mset m (mset (filter P (remove1 m xs)))"
  by (induction xs) auto

lemma pqpop_total:
  assumes so: "strict_order (\<lambda>a b. cmp a b < 0)"
  shows "pq_inv t \<Longrightarrow>
   \<exists>res t'. pqpop cmp t = Inr (res, t') \<and> pq_inv t' \<and> objs t' = objs t
     \<and> (case res of
           None \<Rightarrow> pq_live t = {#} \<and> pq_live t' = {#} \<and> pq_table t' = pq_table t
         | Some e \<Rightarrow> pq_live t = add_mset e (pq_live t')
              \<and> pq_table t' = (pq_table t)(ekey e := None)
              \<and> (\<forall>e' \<in># pq_live t. \<not> cmp e' e < 0))"
proof (induction "length (pq t)" arbitrary: t rule: less_induct)
  case less
  note inv = less.prems
  show ?case
  proof (cases "pq t = []")
    case True
    then have "pqpop cmp t = Inr (None, t)" by (simp add: pqpop.simps)
    with True inv show ?thesis by (simp add: pq_live_def)
  next
    case False
    obtain m h' where hp: "heappop (ref_lt cmp (objs t)) (pq t) = (m, h')"
      by (cases "heappop (ref_lt cmp (objs t)) (pq t)")
    have so': "strict_order (ref_lt cmp (objs t))"
      using so unfolding strict_order_def ref_lt_def by blast
    from heappop_props [OF so' False hp]
    have m: "m \<in> set (pq t)" and h': "h' = remove1 m (pq t)"
      and least: "\<forall>x \<in> set (pq t). \<not> cmp (objs t ! x) (objs t ! m) < 0"
      by (simp_all add: ref_lt_def)
    from inv have di: "distinct (pq t)" and bd: "\<forall>r \<in> set (pq t). r < length (objs t)"
      and tb: "\<forall>k r. pq_table t k = Some r \<longleftrightarrow>
                 (r \<in> set (pq t) \<and> is_live t r \<and> ekey (objs t ! r) = k)"
      by (simp_all add: pq_inv_def)
    define t1 where "t1 = t\<lparr> pq := h' \<rparr>"
    have l1 [simp]: "is_live t1 = is_live t" by (simp add: is_live_def t1_def fun_eq_iff)
    show ?thesis
    proof (cases "is_removed (objs t ! m)")
      case True
      then have dead: "\<not> is_live t m" by (simp add: is_live_def)
      have step: "pqpop cmp t = pqpop cmp t1"
        using False hp True by (subst pqpop.simps) (simp add: t1_def)
      have "pq_inv t1"
        using di bd tb dead unfolding pq_inv_def t1_def h'
        by (auto simp: is_live_def set_remove1_eq)
      moreover have len: "length (pq t1) < length (pq t)"
        using m by (simp add: t1_def h' length_remove1_less)
      ultimately obtain res t' where
        r: "pqpop cmp t1 = Inr (res, t')" "pq_inv t'" "objs t' = objs t1"
          "case res of
             None \<Rightarrow> pq_live t1 = {#} \<and> pq_live t' = {#} \<and> pq_table t' = pq_table t1
           | Some e \<Rightarrow> pq_live t1 = add_mset e (pq_live t')
                \<and> pq_table t' = (pq_table t1)(ekey e := None)
                \<and> (\<forall>e' \<in># pq_live t1. \<not> cmp e' e < 0)"
        using less.hyps [of t1] by blast
      have pl: "pq_live t1 = pq_live t"
        using dead by (simp add: pq_live_def t1_def h' mset_filter_remove1_dead is_live_def)
      have pt: "pq_table t1 = pq_table t" "objs t1 = objs t" by (simp_all add: t1_def)
      from r step pl pt show ?thesis by (cases res) auto
    next
      case F: False
      then have lv: "is_live t m" by (simp add: is_live_def)
      define e where "e = objs t ! m"
      from tb m lv have tm: "pq_table t (ekey e) = Some m" by (simp add: e_def)
      define t' where "t' = t1\<lparr> pq_table := (pq_table t1)(ekey e := None) \<rparr>"
      have step: "pqpop cmp t = Inr (Some e, t')"
        using False hp F tm by (subst pqpop.simps) (auto simp: t1_def t'_def e_def Let_def)
      have lt' [simp]: "is_live t' = is_live t" by (simp add: is_live_def t'_def t1_def fun_eq_iff)
      have "pq_inv t'"
        unfolding pq_inv_def
      proof (intro conjI allI)
        show "distinct (pq t')" using di by (simp add: t'_def t1_def h')
        show "\<forall>r \<in> set (pq t'). r < length (objs t')"
          using bd di by (auto simp: t'_def t1_def h' set_remove1_eq)
        fix k r
        show "pq_table t' k = Some r \<longleftrightarrow>
                (r \<in> set (pq t') \<and> is_live t' r \<and> ekey (objs t' ! r) = k)"
        proof (cases "k = ekey e")
          case True
          have "\<not> (r \<in> set (remove1 m (pq t)) \<and> is_live t r \<and> ekey (objs t ! r) = ekey e)"
          proof
            assume a: "r \<in> set (remove1 m (pq t)) \<and> is_live t r \<and> ekey (objs t ! r) = ekey e"
            then have "r \<in> set (pq t)" using di by (auto simp: set_remove1_eq)
            with a tb have "pq_table t (ekey e) = Some r" by simp
            with tm have "r = m" by simp
            with a di show False by simp
          qed
          with True show ?thesis by (simp add: t'_def t1_def h')
        next
          case False
          have "r \<in> set (pq t) \<and> is_live t r \<and> ekey (objs t ! r) = k
                \<longleftrightarrow> r \<in> set (remove1 m (pq t)) \<and> is_live t r \<and> ekey (objs t ! r) = k"
            using False di by (auto simp: e_def set_remove1_eq)
          with False tb show ?thesis by (simp add: t'_def t1_def h')
        qed
      qed
      moreover have "pq_live t = add_mset e (pq_live t')"
      proof -
        have a: "pq_live t' = image_mset (\<lambda>r. objs t ! r)
                                (mset (filter (is_live t) (remove1 m (pq t))))"
          by (simp add: pq_live_def t'_def t1_def h')
        have b: "mset (filter (is_live t) (pq t))
                 = add_mset m (mset (filter (is_live t) (remove1 m (pq t))))"
          using lv m by (rule mset_filter_remove1_live [of "is_live t" m "pq t"])
        have "pq_live t = image_mset (\<lambda>r. objs t ! r)
                            (add_mset m (mset (filter (is_live t) (remove1 m (pq t)))))"
          unfolding pq_live_def by (subst b) (rule refl)
        then show ?thesis by (simp only: a image_mset_add_mset e_def)
      qed
      moreover have "\<forall>e' \<in># pq_live t. \<not> cmp e' e < 0"
        using least by (auto simp: pq_live_member e_def)
      ultimately show ?thesis using step by (simp add: t'_def t1_def)
    qed
  qed
qed


lemma pq_live_cong:
  assumes "\<forall>r \<in> set rs. os' ! r = os ! r"
  shows "image_mset (\<lambda>r. os' ! r) (mset (filter (\<lambda>r. \<not> is_removed (os' ! r)) rs))
         = image_mset (\<lambda>r. os ! r) (mset (filter (\<lambda>r. \<not> is_removed (os ! r)) rs))"
  using assms by (induction rs) auto

lemma filter_absent: "r0 \<notin> set rs \<Longrightarrow> filter (\<lambda>r. P r \<and> r \<noteq> r0) rs = filter P rs"
  by (induction rs) auto

lemma filter_drop_one:
  "distinct rs \<Longrightarrow> r0 \<in> set rs \<Longrightarrow> P r0 \<Longrightarrow>
   add_mset (f r0) (image_mset f (mset (filter (\<lambda>r. P r \<and> r \<noteq> r0) rs)))
     = image_mset f (mset (filter P rs))"
proof (induction rs)
  case Nil
  then show ?case by simp
next
  case (Cons a rs)
  show ?case
  proof (cases "a = r0")
    case True
    with Cons.prems have "r0 \<notin> set rs" by simp
    from filter_absent [OF this, of P] True Cons.prems(3) show ?thesis by simp
  next
    case False
    with Cons show ?thesis by auto
  qed
qed

lemma pq_live_mark:
  assumes "distinct rs" "r0 \<in> set rs" "\<not> is_removed (os ! r0)" "\<forall>r \<in> set rs. r < length os"
  shows "add_mset (os ! r0)
           (image_mset (\<lambda>r. (os[r0 := (os ! r0)\<lparr> is_removed := True \<rparr>]) ! r)
              (mset (filter (\<lambda>r. \<not> is_removed ((os[r0 := (os ! r0)\<lparr> is_removed := True \<rparr>]) ! r)) rs)))
         = image_mset (\<lambda>r. os ! r) (mset (filter (\<lambda>r. \<not> is_removed (os ! r)) rs))"
proof -
  let ?os' = "os[r0 := (os ! r0)\<lparr> is_removed := True \<rparr>]"
  from assms(2,4) have r0: "r0 < length os" by simp
  have f: "filter (\<lambda>r. \<not> is_removed (?os' ! r)) rs
           = filter (\<lambda>r. \<not> is_removed (os ! r) \<and> r \<noteq> r0) rs"
    using r0 by (intro filter_cong) (auto simp: nth_list_update)
  have "image_mset (\<lambda>r. ?os' ! r) (mset (filter (\<lambda>r. \<not> is_removed (os ! r) \<and> r \<noteq> r0) rs))
        = image_mset (\<lambda>r. os ! r) (mset (filter (\<lambda>r. \<not> is_removed (os ! r) \<and> r \<noteq> r0) rs))"
    by (intro image_mset_cong) (auto simp: nth_list_update)
  with f filter_drop_one [OF assms(1,2), of "\<lambda>r. \<not> is_removed (os ! r)" "\<lambda>r. os ! r"] assms(3)
  show ?thesis by simp
qed

lemma pqinsert_props:
  assumes inv: "pq_inv t" and nr: "\<not> is_removed entry"
  shows "\<exists>old t'. pqinsert cmp t entry = (old, t') \<and> pq_inv t'
           \<and> pq_table t' = (pq_table t)(ekey entry \<mapsto> length (objs t))
           \<and> length (objs t') = Suc (length (objs t)) \<and> objs t' ! length (objs t) = entry
           \<and> (case pq_table t (ekey entry) of
                 None \<Rightarrow> old = None \<and> pq_live t' = add_mset entry (pq_live t)
               | Some r0 \<Rightarrow> old \<noteq> None
                    \<and> add_mset (objs t ! r0) (pq_live t') = add_mset entry (pq_live t))"
proof -
  from inv have di: "distinct (pq t)" and bd: "\<forall>r \<in> set (pq t). r < length (objs t)"
    and tb: "\<forall>k r. pq_table t k = Some r \<longleftrightarrow>
               (r \<in> set (pq t) \<and> is_live t r \<and> ekey (objs t ! r) = k)"
    by (simp_all add: pq_inv_def)
  define new where "new = length (objs t)"
  from bd have nn: "new \<notin> set (pq t)" by (auto simp: new_def)
  show ?thesis
  proof (cases "pq_table t (ekey entry)")
    case None
    define t' where "t' = \<lparr> pq = pq t @ [new], pq_table = (pq_table t)(ekey entry \<mapsto> new),
                           objs = objs t @ [entry] \<rparr>"
    have pi: "pqinsert cmp t entry = (None, t')"
      using None by (simp add: pqinsert_def heappush_def Let_def t'_def new_def)
    have old: "objs t' ! r = objs t ! r" if "r \<in> set (pq t)" for r
      using that bd by (simp add: t'_def nth_append)
    have nw: "objs t' ! new = entry" by (simp add: t'_def new_def)
    have lv: "is_live t' r = is_live t r" if "r \<in> set (pq t)" for r
      using old [OF that] by (simp add: is_live_def)
    have "pq_inv t'"
      unfolding pq_inv_def
    proof (intro conjI allI)
      show "distinct (pq t')" using di nn by (simp add: t'_def)
      show "\<forall>r \<in> set (pq t'). r < length (objs t')"
        using bd by (auto simp: t'_def new_def less_Suc_eq)
      fix k r
      show "pq_table t' k = Some r \<longleftrightarrow>
              (r \<in> set (pq t') \<and> is_live t' r \<and> ekey (objs t' ! r) = k)"
      proof (cases "r = new")
        case True
        from tb nn have "pq_table t k \<noteq> Some new" by auto
        with True nw nr show ?thesis by (auto simp: t'_def is_live_def)
      next
        case False
        have "pq_table t' k = Some r \<longleftrightarrow> k \<noteq> ekey entry \<and> pq_table t k = Some r"
          using False by (auto simp: t'_def)
        also have "\<dots> \<longleftrightarrow> pq_table t k = Some r" using None by auto
        also have "\<dots> \<longleftrightarrow> r \<in> set (pq t) \<and> is_live t r \<and> ekey (objs t ! r) = k"
          using tb by simp
        also have "\<dots> \<longleftrightarrow> r \<in> set (pq t') \<and> is_live t' r \<and> ekey (objs t' ! r) = k"
          using False old lv by (auto simp: t'_def)
        finally show ?thesis .
      qed
    qed
    moreover have "pq_live t' = add_mset entry (pq_live t)"
    proof -
      have "\<forall>r \<in> set (pq t). objs t' ! r = objs t ! r" using old by simp
      from pq_live_cong [OF this] nw nr show ?thesis
        by (simp add: pq_live_def is_live_def [abs_def] t'_def)
    qed
    ultimately show ?thesis using pi None nw by (simp add: t'_def new_def)
  next
    case (Some r0)
    with tb have r0: "r0 \<in> set (pq t)" "is_live t r0" "ekey (objs t ! r0) = ekey entry" by simp_all
    define os where "os = (objs t)[r0 := (objs t ! r0)\<lparr> is_removed := True \<rparr>]"
    define t' where "t' = \<lparr> pq = pq t @ [new], pq_table = (pq_table t)(ekey entry \<mapsto> new),
                           objs = os @ [entry] \<rparr>"
    have ln: "length os = length (objs t)" by (simp add: os_def)
    have pi: "pqinsert cmp t entry = (Some (os ! r0), t')"
      using Some by (simp add: pqinsert_def heappush_def Let_def t'_def new_def os_def)
    have inos: "objs t' ! r = os ! r" if "r \<in> set (pq t)" for r
      using that bd by (simp add: t'_def nth_append ln)
    have old: "objs t' ! r = objs t ! r" if "r \<in> set (pq t)" "r \<noteq> r0" for r
      using that inos [OF that(1)] by (simp add: os_def)
    have dead: "\<not> is_live t' r0"
      using inos [OF r0(1)] r0(1) bd by (simp add: is_live_def os_def)
    have nw: "objs t' ! new = entry" by (simp add: t'_def new_def ln [symmetric])
    have "pq_inv t'"
      unfolding pq_inv_def
    proof (intro conjI allI)
      show "distinct (pq t')" using di nn by (simp add: t'_def)
      show "\<forall>r \<in> set (pq t'). r < length (objs t')"
        using bd by (auto simp: t'_def new_def ln less_Suc_eq)
      fix k r
      show "pq_table t' k = Some r \<longleftrightarrow>
              (r \<in> set (pq t') \<and> is_live t' r \<and> ekey (objs t' ! r) = k)"
      proof (cases "r = new")
        case True
        from tb nn have "pq_table t k \<noteq> Some new" by auto
        with True nw nr show ?thesis by (auto simp: t'_def is_live_def)
      next
        case False
        show ?thesis
        proof (cases "r = r0")
          case True
          have "pq_table t k = Some r0 \<longrightarrow> k = ekey entry" using tb r0(3) by auto
          with True dead r0 Some False show ?thesis by (auto simp: t'_def)
        next
          case F: False
          have "pq_table t' k = Some r \<longleftrightarrow> k \<noteq> ekey entry \<and> pq_table t k = Some r"
            using False by (auto simp: t'_def)
          also have "\<dots> \<longleftrightarrow> pq_table t k = Some r" using Some F by auto
          also have "\<dots> \<longleftrightarrow> r \<in> set (pq t) \<and> is_live t r \<and> ekey (objs t ! r) = k"
            using tb by simp
          also have "\<dots> \<longleftrightarrow> r \<in> set (pq t') \<and> is_live t' r \<and> ekey (objs t' ! r) = k"
            using False F old by (auto simp: t'_def is_live_def)
          finally show ?thesis .
        qed
      qed
    qed
    moreover have "add_mset (objs t ! r0) (pq_live t') = add_mset entry (pq_live t)"
    proof -
      have "\<forall>r \<in> set (pq t). objs t' ! r = os ! r" using inos by simp
      from pq_live_cong [OF this]
      have "pq_live t' = add_mset entry
              (image_mset (\<lambda>r. os ! r) (mset (filter (\<lambda>r. \<not> is_removed (os ! r)) (pq t))))"
        using nw nr by (simp add: pq_live_def is_live_def [abs_def] t'_def)
      moreover from pq_live_mark [OF di r0(1) _ bd] r0(2)
      have "add_mset (objs t ! r0)
              (image_mset (\<lambda>r. os ! r) (mset (filter (\<lambda>r. \<not> is_removed (os ! r)) (pq t))))
            = pq_live t"
        by (simp add: os_def pq_live_def is_live_def [abs_def])
      ultimately show ?thesis by simp
    qed
    ultimately show ?thesis using pi Some nw by (simp add: t'_def new_def ln)
  qed
qed


definition pq_sizes :: "'a PQEntry_scheme multiset \<Rightarrow> int" where
  "pq_sizes M = (\<Sum>e\<in>#M. evalue_size e)"

definition pqc_inv :: "'a PQEntry_scheme PQTable \<Rightarrow> int \<Rightarrow> bool" where
  "pqc_inv t used \<longleftrightarrow>
     pq_inv t \<and> used = pq_sizes (pq_live t) \<and> (\<forall>e \<in># pq_live t. 0 < evalue_size e)"

lemma pq_sizes_simps [simp]:
  "pq_sizes {#} = 0" "pq_sizes (add_mset e M) = evalue_size e + pq_sizes M"
  by (simp_all add: pq_sizes_def)

lemma pq_sizes_pos: "\<forall>e \<in># M. 0 < evalue_size e \<Longrightarrow> M \<noteq> {#} \<Longrightarrow> 0 < pq_sizes M"
proof (induction M)
  case empty
  then show ?case by simp
next
  case (add x M)
  then show ?case by (cases "M = {#}") (auto simp: add_pos_pos)
qed

lemma pqc_inv_pop:
  assumes so: "strict_order (\<lambda>a b. cmp a b < 0)" and inv: "pqc_inv t used"
    and pos: "0 < used"
  shows "\<exists>e t'. pqpop cmp t = Inr (Some e, t') \<and> pqc_inv t' (used - evalue_size e)
           \<and> pq_live t = add_mset e (pq_live t')
           \<and> pq_table t' = (pq_table t)(ekey e := None)
           \<and> (\<forall>e' \<in># pq_live t. \<not> cmp e' e < 0)"
proof -
  from inv have pi: "pq_inv t" and u: "used = pq_sizes (pq_live t)"
    and p: "\<forall>e \<in># pq_live t. 0 < evalue_size e" by (simp_all add: pqc_inv_def)
  from pqpop_total [OF so pi] obtain res t' where
    r: "pqpop cmp t = Inr (res, t')" "pq_inv t'"
      "case res of
         None \<Rightarrow> pq_live t = {#} \<and> pq_live t' = {#} \<and> pq_table t' = pq_table t
       | Some e \<Rightarrow> pq_live t = add_mset e (pq_live t')
            \<and> pq_table t' = (pq_table t)(ekey e := None)
            \<and> (\<forall>e' \<in># pq_live t. \<not> cmp e' e < 0)"
    by blast
  from pos u have "pq_live t \<noteq> {#}" by auto
  with r(3) obtain e where e: "res = Some e" "pq_live t = add_mset e (pq_live t')"
      "pq_table t' = (pq_table t)(ekey e := None)" "\<forall>e' \<in># pq_live t. \<not> cmp e' e < 0"
    by (cases res) auto
  from u p e(2) r(2) have "pqc_inv t' (used - evalue_size e)" by (simp add: pqc_inv_def)
  with r(1) e show ?thesis by blast
qed

lemma pqc_inv_update:
  assumes inv: "pqc_inv t used" and tk: "pq_table t k = Some old"
    and en: "ekey entry = k" "\<not> is_removed entry" "evalue_size entry = evalue_size (objs t ! old)"
  shows "\<exists>removed t'. pqinsert cmp t entry = (Some removed, t') \<and> pqc_inv t' used
           \<and> dom (pq_table t') = dom (pq_table t)"
proof -
  from inv have pi: "pq_inv t" and u: "used = pq_sizes (pq_live t)"
    and p: "\<forall>e \<in># pq_live t. 0 < evalue_size e" by (simp_all add: pqc_inv_def)
  from pqinsert_props [OF pi en(2), of cmp] tk en(1) obtain removed t' where
    r: "pqinsert cmp t entry = (Some removed, t')" "pq_inv t'"
      "pq_table t' = (pq_table t)(k \<mapsto> length (objs t))"
      "add_mset (objs t ! old) (pq_live t') = add_mset entry (pq_live t)"
    by auto
  from pq_table_live [OF pi tk] p have po: "0 < evalue_size (objs t ! old)" by auto
  from r(4) have "pq_sizes (add_mset (objs t ! old) (pq_live t'))
                  = pq_sizes (add_mset entry (pq_live t))" by simp
  with en(3) u have u': "used = pq_sizes (pq_live t')" by simp
  have "\<forall>e \<in># pq_live t'. 0 < evalue_size e"
  proof
    fix e assume "e \<in># pq_live t'"
    then have "e \<in># add_mset (objs t ! old) (pq_live t')" by simp
    with r(4) have "e = entry \<or> e \<in># pq_live t" by auto
    with p po en(3) show "0 < evalue_size e" by auto
  qed
  with r(2) u' have "pqc_inv t' used" by (simp add: pqc_inv_def)
  moreover have "dom (pq_table t') = dom (pq_table t)" using r(3) tk by auto
  ultimately show ?thesis using r(1) by blast
qed

lemma pqc_inv_new:
  assumes inv: "pqc_inv t used" and tk: "pq_table t k = None"
    and en: "ekey entry = k" "\<not> is_removed entry" "0 < evalue_size entry"
  shows "\<exists>t'. pqinsert cmp t entry = (None, t') \<and> pqc_inv t' (used + evalue_size entry)
           \<and> pq_live t' = add_mset entry (pq_live t)"
proof -
  from inv have pi: "pq_inv t" and u: "used = pq_sizes (pq_live t)"
    and p: "\<forall>e \<in># pq_live t. 0 < evalue_size e" by (simp_all add: pqc_inv_def)
  from pqinsert_props [OF pi en(2), of cmp] tk en(1) obtain t' where
    r: "pqinsert cmp t entry = (None, t')" "pq_inv t'"
      "pq_live t' = add_mset entry (pq_live t)"
    by auto
  with u p en(3) show ?thesis by (simp add: pqc_inv_def)
qed

lemma OPTCacheEntry_cmp_strict: "strict_order (\<lambda>a b. OPTCacheEntry_cmp a b < 0)"
  by (auto simp: strict_order_def OPTCacheEntry_cmp_def split: if_splits)

lemma GDSizeEntry_cmp_strict: "strict_order (\<lambda>a b. GDSizeEntry_cmp a b < 0)"
  by (auto simp: strict_order_def GDSizeEntry_cmp_def split: if_splits)

definition opt_inv :: "OPTCache \<Rightarrow> bool" where
  "opt_inv c \<longleftrightarrow> pqc_inv (opt_table c) (used_size c)"

lemma OPTCache_evict_total:
  "opt_inv c \<Longrightarrow> v \<le> cache_size c \<Longrightarrow>
   \<exists>c'. OPTCache_evict c r k h v = Inr c' \<and> opt_inv c' \<and> base_frame c c'
        \<and> used_size c' + v \<le> cache_size c'
        \<and> (\<forall>k'. pq_table (opt_table c) k' = None \<longrightarrow> pq_table (opt_table c') k' = None)"
proof (induction "size (pq_live (opt_table c))" arbitrary: c rule: less_induct)
  case less
  show ?case
  proof (cases "used_size c + v > cache_size c")
    case False
    with less.prems show ?thesis by (subst OPTCache_evict.simps) simp
  next
    case True
    with less.prems(2) have pos: "0 < used_size c" by simp
    from less.prems(1) have inv: "pqc_inv (opt_table c) (used_size c)" by (simp add: opt_inv_def)
    from pqc_inv_pop [OF OPTCacheEntry_cmp_strict inv pos] obtain e t' where
      p: "pqpop OPTCacheEntry_cmp (opt_table c) = Inr (Some e, t')"
        "pqc_inv t' (used_size c - evalue_size e)"
        "pq_live (opt_table c) = add_mset e (pq_live t')"
        "pq_table t' = (pq_table (opt_table c))(ekey e := None)" by blast
    define c1 where "c1 = c\<lparr> opt_table := t', used_size := used_size c - evalue_size e \<rparr>"
    have inv1: "opt_inv c1" using p(2) by (simp add: opt_inv_def c1_def)
    have sz: "size (pq_live (opt_table c1)) < size (pq_live (opt_table c))"
      by (simp add: c1_def p(3))
    have v1: "v \<le> cache_size c1" using less.prems(2) by (simp add: c1_def)
    from less.hyps [OF sz inv1 v1] obtain c' where
      c': "OPTCache_evict c1 r k h v = Inr c'" "opt_inv c'" "base_frame c1 c'"
        "used_size c' + v \<le> cache_size c'"
        "\<forall>k'. pq_table (opt_table c1) k' = None \<longrightarrow> pq_table (opt_table c') k' = None"
      by blast
    have "OPTCache_evict c r k h v = OPTCache_evict c1 r k h v"
      using True p(1) by (subst OPTCache_evict.simps) (simp add: c1_def)
    moreover have "base_frame c c'" using c'(3) by (simp add: base_frame_def c1_def)
    moreover have "\<forall>k'. pq_table (opt_table c) k' = None \<longrightarrow> pq_table (opt_table c') k' = None"
      using c'(5) p(4) by (simp add: c1_def)
    ultimately show ?thesis using c' by simp
  qed
qed

lemma OPT_access_kv_total:
  assumes inv: "opt_inv c" and le: "used_size c \<le> cache_size c"
  shows "\<exists>hit c'. access_kv OPTCache_methods c r k h v ni = Inr (hit, c')
                  \<and> opt_inv c' \<and> used_size c' \<le> cache_size c' \<and> base_frame c c'"
proof (cases "pq_table (opt_table c) k")
  case (Some old)
  from inv have pi: "pqc_inv (opt_table c) (used_size c)" by (simp add: opt_inv_def)
  from pqc_inv_update [OF pi Some, of "OPTCacheEntry_init k (next_access_seq_no r)
        (evalue_size (objs (opt_table c) ! old))" OPTCacheEntry_cmp]
  obtain removed t' where
    u: "pqinsert OPTCacheEntry_cmp (opt_table c)
          (OPTCacheEntry_init k (next_access_seq_no r) (evalue_size (objs (opt_table c) ! old)))
        = (Some removed, t')" "pqc_inv t' (used_size c)"
    by (auto simp: OPTCacheEntry_init_def)
  define c1 where "c1 = c\<lparr> opt_table := t' \<rparr>"
  have "access_kv OPTCache_methods c r k h v ni = Inr (True, c1)"
    using Some u(1) le by (simp add: access_kv_def OPTCache_methods_def OPTCache_lookup_def c1_def)
  moreover have "opt_inv c1" "base_frame c c1" "used_size c1 \<le> cache_size c1"
    using u(2) le by (simp_all add: opt_inv_def c1_def base_frame_def)
  ultimately show ?thesis by blast
next
  case None
  then have lk: "m_lookup OPTCache_methods c r k h = Inr (False, c)"
    by (simp add: OPTCache_methods_def OPTCache_lookup_def)
  show ?thesis
  proof (cases "ni \<or> v \<le> 0 \<or> v > cache_size c")
    case True
    then have "access_kv OPTCache_methods c r k h v ni = Inr (False, c)"
      using lk le by (auto simp: access_kv_def)
    with inv le show ?thesis by auto
  next
    case F: False
    then have v: "0 < v" "v \<le> cache_size c" "\<not> ni" by auto
    from OPTCache_evict_total [OF inv v(2), of r k h] None obtain c2 where
      c2: "OPTCache_evict c r k h v = Inr c2" "opt_inv c2" "base_frame c c2"
        "used_size c2 + v \<le> cache_size c2" "pq_table (opt_table c2) k = None" by blast
    from c2(2) have pi2: "pqc_inv (opt_table c2) (used_size c2)" by (simp add: opt_inv_def)
    from pqc_inv_new [OF pi2 c2(5), of "OPTCacheEntry_init k (next_access_seq_no r) v"
        OPTCacheEntry_cmp] v(1)
    obtain t' where
      n: "pqinsert OPTCacheEntry_cmp (opt_table c2) (OPTCacheEntry_init k (next_access_seq_no r) v)
          = (None, t')" "pqc_inv t' (used_size c2 + v)"
      by (auto simp: OPTCacheEntry_init_def)
    define c4 where "c4 = c2\<lparr> opt_table := t', used_size := used_size c2 + v \<rparr>"
    have "access_kv OPTCache_methods c r k h v ni = Inr (False, c4)"
      using lk le F c2(1,3) n(1)
      by (simp add: access_kv_def OPTCache_methods_def OPTCache_insert_def c4_def base_frame_def)
    moreover have "opt_inv c4" "base_frame c c4" "used_size c4 \<le> cache_size c4"
      using n(2) c2(3,4) by (simp_all add: opt_inv_def c4_def base_frame_def)
    ultimately show ?thesis by blast
  qed
qed

lemma OPT_accesses_total:
  assumes "0 \<le> csize"
  shows "\<exists>c'. accesses OPTCache_methods (OPTCache_init csize) rs = Inr c'
              \<and> opt_inv c' \<and> used_size c' \<le> cache_size c' \<and> cache_size c' = csize"
proof -
  let ?Inv = "\<lambda>c. opt_inv c \<and> used_size c \<le> cache_size c \<and> cache_size c = csize"
  have "\<exists>c'. accesses OPTCache_methods (OPTCache_init csize) rs = Inr c' \<and> ?Inv c'"
  proof (rule accesses_total [where Inv = ?Inv])
    show "\<exists>hit c'. access_kv OPTCache_methods c r k h v ni = Inr (hit, c') \<and> ?Inv c'
            \<and> get_id_row_key_map c' = get_id_row_key_map c" if "?Inv c" for c r k h v ni
      using OPT_access_kv_total [of c r k h v ni] that by (auto simp: base_frame_def)
    show "?Inv (c\<lparr> miss_ratio_stats := s1, per_hour_miss_ratio_stats := s2 \<rparr>)"
      if "?Inv c" for c s1 s2
      using that by (simp add: opt_inv_def)
    show "?Inv (c\<lparr> get_id_row_key_map := m \<rparr>)" if "?Inv c" for c m
      using that by (simp add: opt_inv_def)
    show "used_size c \<le> cache_size c" if "?Inv c" for c
      using that by simp
    show "?Inv (OPTCache_init csize)"
      using assms by (simp add: opt_inv_def pqc_inv_def OPTCache_init_def PQTable_init_inv)
  qed
  then show ?thesis by blast
qed


definition gds_inv :: "GDSizeCache \<Rightarrow> bool" where
  "gds_inv c \<longleftrightarrow> pqc_inv (gds_table c) (used_size c)"

lemma GDSizeCache_evict_total:
  "gds_inv c \<Longrightarrow> v \<le> cache_size c \<Longrightarrow>
   \<exists>c'. GDSizeCache_evict c r k h v = Inr c' \<and> gds_inv c' \<and> base_frame c c'
        \<and> used_size c' + v \<le> cache_size c'
        \<and> (\<forall>k'. pq_table (gds_table c) k' = None \<longrightarrow> pq_table (gds_table c') k' = None)"
proof (induction "size (pq_live (gds_table c))" arbitrary: c rule: less_induct)
  case less
  show ?case
  proof (cases "used_size c + v > cache_size c")
    case False
    with less.prems show ?thesis by (subst GDSizeCache_evict.simps) simp
  next
    case True
    with less.prems(2) have pos: "0 < used_size c" by simp
    from less.prems(1) have inv: "pqc_inv (gds_table c) (used_size c)" by (simp add: gds_inv_def)
    from pqc_inv_pop [OF GDSizeEntry_cmp_strict inv pos] obtain e t' where
      p: "pqpop GDSizeEntry_cmp (gds_table c) = Inr (Some e, t')"
        "pqc_inv t' (used_size c - evalue_size e)"
        "pq_live (gds_table c) = add_mset e (pq_live t')"
        "pq_table t' = (pq_table (gds_table c))(ekey e := None)" by blast
    define c1 where "c1 = c\<lparr> gds_table := t', L := priority e,
                            used_size := used_size c - evalue_size e \<rparr>"
    have inv1: "gds_inv c1" using p(2) by (simp add: gds_inv_def c1_def)
    have sz: "size (pq_live (gds_table c1)) < size (pq_live (gds_table c))"
      by (simp add: c1_def p(3))
    have v1: "v \<le> cache_size c1" using less.prems(2) by (simp add: c1_def)
    from less.hyps [OF sz inv1 v1] obtain c' where
      c': "GDSizeCache_evict c1 r k h v = Inr c'" "gds_inv c'" "base_frame c1 c'"
        "used_size c' + v \<le> cache_size c'"
        "\<forall>k'. pq_table (gds_table c1) k' = None \<longrightarrow> pq_table (gds_table c') k' = None"
      by blast
    have "GDSizeCache_evict c r k h v = GDSizeCache_evict c1 r k h v"
      using True p(1) by (subst GDSizeCache_evict.simps) (simp add: c1_def)
    moreover have "base_frame c c'" using c'(3) by (simp add: base_frame_def c1_def)
    moreover have "\<forall>k'. pq_table (gds_table c) k' = None \<longrightarrow> pq_table (gds_table c') k' = None"
      using c'(5) p(4) by (simp add: c1_def)
    ultimately show ?thesis using c' by simp
  qed
qed

lemma GDS_access_kv_total:
  assumes inv: "gds_inv c" and le: "used_size c \<le> cache_size c"
  shows "\<exists>hit c'. access_kv GDSizeCache_methods c r k h v ni = Inr (hit, c')
                  \<and> gds_inv c' \<and> used_size c' \<le> cache_size c' \<and> base_frame c c'"
proof (cases "pq_table (gds_table c) k")
  case (Some old)
  from inv have pi: "pqc_inv (gds_table c) (used_size c)" by (simp add: gds_inv_def)
  let ?old = "objs (gds_table c) ! old"
  from pqc_inv_update [OF pi Some, of "GDSizeEntry_init k (evalue_size ?old)
        (L c + evalue_size ?old)" GDSizeEntry_cmp]
  obtain removed t' where
    u: "pqinsert GDSizeEntry_cmp (gds_table c)
          (GDSizeEntry_init k (evalue_size ?old) (L c + evalue_size ?old))
        = (Some removed, t')" "pqc_inv t' (used_size c)"
    by (auto simp: GDSizeEntry_init_def)
  define c1 where "c1 = c\<lparr> gds_table := t' \<rparr>"
  have "access_kv GDSizeCache_methods c r k h v ni = Inr (True, c1)"
    using Some u(1) le
    by (simp add: access_kv_def GDSizeCache_methods_def GDSizeCache_lookup_def c1_def Let_def)
  moreover have "gds_inv c1" "base_frame c c1" "used_size c1 \<le> cache_size c1"
    using u(2) le by (simp_all add: gds_inv_def c1_def base_frame_def)
  ultimately show ?thesis by blast
next
  case None
  then have lk: "m_lookup GDSizeCache_methods c r k h = Inr (False, c)"
    by (simp add: GDSizeCache_methods_def GDSizeCache_lookup_def)
  show ?thesis
  proof (cases "ni \<or> v \<le> 0 \<or> v > cache_size c")
    case True
    then have "access_kv GDSizeCache_methods c r k h v ni = Inr (False, c)"
      using lk le by (auto simp: access_kv_def)
    with inv le show ?thesis by auto
  next
    case F: False
    then have v: "0 < v" "v \<le> cache_size c" "\<not> ni" by auto
    from GDSizeCache_evict_total [OF inv v(2), of r k h] None obtain c2 where
      c2: "GDSizeCache_evict c r k h v = Inr c2" "gds_inv c2" "base_frame c c2"
        "used_size c2 + v \<le> cache_size c2" "pq_table (gds_table c2) k = None" by blast
    from c2(2) have pi2: "pqc_inv (gds_table c2) (used_size c2)" by (simp add: gds_inv_def)
    from pqc_inv_new [OF pi2 c2(5), of "GDSizeEntry_init k v (L c2 + v)" GDSizeEntry_cmp] v(1)
    obtain t' where
      n: "pqinsert GDSizeEntry_cmp (gds_table c2) (GDSizeEntry_init k v (L c2 + v)) = (None, t')"
        "pqc_inv t' (used_size c2 + v)"
      by (auto simp: GDSizeEntry_init_def)
    define c4 where "c4 = c2\<lparr> gds_table := t', used_size := used_size c2 + v \<rparr>"
    have "access_kv GDSizeCache_methods c r k h v ni = Inr (False, c4)"
      using lk le F c2(1,3) n(1)
      by (simp add: access_kv_def GDSizeCache_methods_def GDSizeCache_insert_def c4_def
          base_frame_def)
    moreover have "gds_inv c4" "base_frame c c4" "used_size c4 \<le> cache_size c4"
      using n(2) c2(3,4) by (simp_all add: gds_inv_def c4_def base_frame_def)
    ultimately show ?thesis by blast
  qed
qed

lemma GDS_accesses_total:
  assumes "0 \<le> csize"
  shows "\<exists>c'. accesses GDSizeCache_methods (GDSizeCache_init csize) rs = Inr c'
              \<and> gds_inv c' \<and> used_size c' \<le> cache_size c' \<and> cache_size c' = csize"
proof -
  let ?Inv = "\<lambda>c. gds_inv c \<and> used_size c \<le> cache_size c \<and> cache_size c = csize"
  have "\<exists>c'. accesses GDSizeCache_methods (GDSizeCache_init csize) rs = Inr c' \<and> ?Inv c'"
  proof (rule accesses_total [where Inv = ?Inv])
    show "\<exists>hit c'. access_kv GDSizeCache_methods c r k h v ni = Inr (hit, c') \<and> ?Inv c'
            \<and> get_id_row_key_map c' = get_id_row_key_map c" if "?Inv c" for c r k h v ni
      using GDS_access_kv_total [of c r k h v ni] that by (auto simp: base_frame_def)
    show "?Inv (c\<lparr> miss_ratio_stats := s1, per_hour_miss_ratio_stats := s2 \<rparr>)"
      if "?Inv c" for c s1 s2
      using that by (simp add: gds_inv_def)
    show "?Inv (c\<lparr> get_id_row_key_map := m \<rparr>)" if "?Inv c" for c m
      using that by (simp add: gds_inv_def)
    show "used_size c \<le> cache_size c" if "?Inv c" for c
      using that by simp
    show "?Inv (GDSizeCache_init csize)"
      using assms by (simp add: gds_inv_def pqc_inv_def GDSizeCache_init_def PQTable_init_inv)
  qed
  then show ?thesis by blast
qed

section \<open>Verified properties\<close>

text \<open>
  C4. The docstring of ARCCache says that 16 KB is used as the average block size to
  compute the number of blocks \<open>c\<close>, that is \<open>c = cache_size / 16384\<close>. The code computes
  \<open>(cache_size / 16) * 1024\<close> instead: for a cache of 16384 bytes it yields 1048576
  blocks, not 1.
\<close>

theorem ARCCache_c_16384:
  "ARCCache_c 16384 = 1048576 \<and> ARCCache_c 16384 \<noteq> 16384 div 16384"
  by (simp add: ARCCache_c_def)

text \<open>
  C10. \<open>miss_ratio\<close> returns \<open>100 * num_misses / num_accesses\<close> when \<open>num_accesses > 0\<close>
  and raises ZeroDivisionError when \<open>num_accesses = 0\<close>, which is the state right after
  construction and right after \<open>reset_counter\<close>; the reporting path calls it without a
  guard, so it fails in exactly that case.
\<close>

theorem miss_ratio_defined_iff:
  "(0 < num_accesses s \<longrightarrow>
      miss_ratio s = Inr (100 * of_int (num_misses s) / of_int (num_accesses s)))
   \<and> (num_accesses s = 0 \<longrightarrow> miss_ratio s = Inl ZeroDivisionError)
   \<and> miss_ratio (MissRatioStats_init tu) = Inl ZeroDivisionError
   \<and> miss_ratio (reset_counter s) = Inl ZeroDivisionError
   \<and> (num_accesses s = 0 \<longrightarrow> report_stats_mrc s = Inl ZeroDivisionError)
   \<and> (0 < num_accesses s \<longrightarrow>
        report_stats_mrc s =
          Inr (100 * of_int (num_misses s) / of_int (num_accesses s), num_accesses s))"
  by (simp add: miss_ratio_def MissRatioStats_init_def reset_counter_def report_stats_mrc_def)

theorem miss_ratio_defined_iff_witness:
  "miss_ratio (update_metrics (update_metrics (MissRatioStats_init 60) 5 False) 7 True) = Inr 50
   \<and> miss_ratio (reset_counter (update_metrics (MissRatioStats_init 60) 5 False))
       = Inl ZeroDivisionError
   \<and> report_stats_mrc (update_metrics (update_metrics (MissRatioStats_init 60) 5 False) 7 True)
       = Inr (50, 2)
   \<and> report_stats_mrc (MissRatioStats_init 60) = Inl ZeroDivisionError"
  using miss_ratio_defined_iff [of "update_metrics (update_metrics (MissRatioStats_init 60) 5 False) 7 True" 60]
        miss_ratio_defined_iff [of "MissRatioStats_init 60" 60]
        miss_ratio_defined_iff [of "update_metrics (MissRatioStats_init 60) 5 False" 60]
  by (simp add: update_metrics_def MissRatioStats_init_def Let_def)

text \<open>
  C3. For every interleaving of insert, delete and lookup calls on a fresh table
  (grows and shrinks included, since they happen inside insert and delete):
  after the most recent \<open>insert(k, h, v)\<close>, \<open>lookup(k, h)\<close> returns \<open>v\<close> unless a
  \<open>delete(k, h)\<close> came later, in which case it returns \<^verbatim>\<open>None\<close>; a pair never inserted is
  absent.
\<close>

theorem lookup_most_recent_insert:
  "((\<forall>w. Insert k h w \<notin> set after) \<longrightarrow>
      HashTable_lookup (ht_calls (before @ Insert k h v # after)) k h
        = (if Delete k h \<in> set after then None else Some v))
   \<and> ((\<forall>w. Insert k h w \<notin> set cs) \<longrightarrow> HashTable_lookup (ht_calls cs) k h = None)"
  using lookup_after_insert [of k h after before v] lookup_never_inserted [of k h cs] by blast

theorem lookup_most_recent_insert_witness:
  "HashTable_lookup (ht_calls [Insert ''b7'' 7 (1::int), Insert ''b39'' 39 2, Delete ''b7'' 7,
       Insert ''b7'' 7 3, Lookup ''b7'' 7, Delete ''b39'' 39]) ''b7'' 7 = Some 3
   \<and> HashTable_lookup (ht_calls [Insert ''b7'' 7 (1::int), Insert ''b39'' 39 2, Delete ''b7'' 7,
       Insert ''b7'' 7 3, Lookup ''b7'' 7, Delete ''b39'' 39]) ''b39'' 39 = None
   \<and> HashTable_lookup (ht_calls [Insert ''b7'' 7 (1::int), Delete ''b7'' 7]) ''g7'' 7 = None"
  using lookup_most_recent_insert [of "''b7''" 7 "[Lookup ''b7'' 7, Delete ''b39'' 39]"
          "[Insert ''b7'' 7 (1::int), Insert ''b39'' 39 2, Delete ''b7'' 7]" 3 "[]"]
        lookup_most_recent_insert [of "''b39''" 39
          "[Delete ''b7'' 7, Insert ''b7'' 7 3, Lookup ''b7'' 7, Delete ''b39'' 39]"
          "[Insert ''b7'' 7 (1::int)]" 2 "[]"]
        lookup_most_recent_insert [of "''g7''" 7 "[]" "[]" 0 "[Insert ''b7'' 7 (1::int), Delete ''b7'' 7]"]
  by simp blast


end
